theory Spec2Isabelle
  imports Main "HOL-Library.Char_ord" "HOL-Library.List_Lexorder"
begin

section \<open>The incremental synchronisation controller of \<^verbatim>\<open>arxiv_tracker/cli.py\<close>\<close>

text \<open>
  The controller is the body of \<^verbatim>\<open>run\<close>: it loads the set of identifiers already seen,
  pages through the feed until enough unseen items are collected, sends one notification
  per snapshot and writes the seen set back when something was published.
  Python integers are \<^typ>\<open>int\<close>, strings are \<^typ>\<open>string\<close> (ASCII), a missing dictionary key
  is \<^term>\<open>None\<close>. The collaborators that live outside \<^verbatim>\<open>cli.py\<close> (feed transport and
  parser, enrichment, site generator, mail transport, the clock, the file system) are
  parameters of the model.
\<close>

subsection \<open>Feed items and timestamps\<close>

text \<open>
  A feed item is a dictionary; the controller reads the keys \<^verbatim>\<open>id\<close>, \<^verbatim>\<open>updated\<close> and
  \<^verbatim>\<open>published\<close> with \<^verbatim>\<open>it.get(...)\<close>, so each is optional. The title stands for the payload
  that the controller does not interpret.
\<close>

record item =
  item_id :: "string option"
  updated :: "string option"
  published :: "string option"
  title :: string

text \<open>\<^verbatim>\<open>s.replace("Z", "+00:00")\<close>\<close>

definition replace_Z :: "string \<Rightarrow> string" where
  "replace_Z s = concat (map (\<lambda>c. if c = CHR ''Z'' then ''+00:00'' else [c]) s)"

text \<open>
  \<^verbatim>\<open>_parse_dt\<close>: \<^verbatim>\<open>None\<close> for a missing or empty string and for a string that
  \<^verbatim>\<open>datetime.fromisoformat\<close> rejects. The library call, followed by the conversion to UTC,
  is the parameter \<open>fromiso\<close>: it returns the instant in microseconds since
  0001-01-01T00:00:00 UTC, or \<^term>\<open>None\<close> where the library raises.
\<close>

definition parse_dt :: "(string \<Rightarrow> int option) \<Rightarrow> string option \<Rightarrow> int option" where
  "parse_dt fromiso s =
     (case s of
        None \<Rightarrow> None
      | Some v \<Rightarrow> if v = [] then None else fromiso (replace_Z v))"

text \<open>\<^verbatim>\<open>_parse_dt(it.get("updated")) or _parse_dt(it.get("published"))\<close>; a datetime is always truthy.\<close>

definition effective_time :: "(string \<Rightarrow> int option) \<Rightarrow> item \<Rightarrow> int option" where
  "effective_time fromiso it =
     (case parse_dt fromiso (updated it) of
        Some t \<Rightarrow> Some t
      | None \<Rightarrow> parse_dt fromiso (published it))"

subsection \<open>The windowed paginator\<close>

datatype error = FeedError | OverflowError | OutputError

text \<open>
  What the loops of \<^verbatim>\<open>run\<close> read and never change. \<open>feed n start max_results\<close> is
  \<^verbatim>\<open>parse_feed(fetch_arxiv_feed(q, start=..., max_results=..., ...)) or []\<close> for the call
  made after \<open>n\<close> earlier calls (the remote feed may answer the same request differently
  later); \<^term>\<open>None\<close> when the transport or the parser raises.
\<close>

record pctx =
  fromisoformat :: "string \<Rightarrow> int option"
  feed :: "nat \<Rightarrow> int \<Rightarrow> int \<Rightarrow> item list option"
  cutoff :: "int option"
  unique_only :: bool
  seen_ids :: "string set"
  want_new :: int
  page_size :: int

text \<open>\<^verbatim>\<open>cutoff and t and t < cutoff\<close>\<close>

definition before_cutoff :: "pctx \<Rightarrow> item \<Rightarrow> bool" where
  "before_cutoff C it =
     (case cutoff C of
        None \<Rightarrow> False
      | Some c \<Rightarrow> (case effective_time (fromisoformat C) it of
                    None \<Rightarrow> False
                  | Some t \<Rightarrow> t < c))"

text \<open>\<^verbatim>\<open>unique_only and aid and aid in seen_ids\<close>\<close>

definition already_seen :: "pctx \<Rightarrow> item \<Rightarrow> bool" where
  "already_seen C it =
     (unique_only C \<and>
      (case item_id it of
         None \<Rightarrow> False
       | Some aid \<Rightarrow> aid \<noteq> [] \<and> aid \<in> seen_ids C))"

text \<open>
  The inner loop \<^verbatim>\<open>for it in page_items\<close> on the pair \<open>(collected, reached_cutoff)\<close>:
  \<^verbatim>\<open>break\<close> returns, \<^verbatim>\<open>continue\<close> goes on with the rest of the page.
\<close>

fun scan_page :: "pctx \<Rightarrow> item list \<Rightarrow> item list \<times> bool \<Rightarrow> item list \<times> bool" where
  "scan_page C [] (acc, reached) = (acc, reached)"
| "scan_page C (it # rest) (acc, reached) =
     (if before_cutoff C it then (acc, True)
      else if already_seen C it then scan_page C rest (acc, reached)
      else if want_new C \<le> int (length (acc @ [it])) then (acc @ [it], reached)
      else scan_page C rest (acc @ [it], reached))"

record pag =
  collected :: "item list"
  reached_cutoff :: bool
  start :: int

text \<open>
  The outer loop \<^verbatim>\<open>for _page in range(max_pages)\<close>, with the number of pages still allowed
  as the recursion argument. The second component logs every call of the feed as
  \<open>(start, max_results)\<close>; a call that raises is logged too and ends the run.
\<close>

fun paginate :: "pctx \<Rightarrow> nat \<Rightarrow> pag \<Rightarrow> (int \<times> int) list \<Rightarrow> (error + pag) \<times> (int \<times> int) list" where
  "paginate C 0 s calls = (Inr s, calls)"
| "paginate C (Suc k) s calls =
     (case feed C (length calls) (start s) (page_size C) of
        None \<Rightarrow> (Inl FeedError, calls @ [(start s, page_size C)])
      | Some page_items \<Rightarrow>
          if page_items = [] then (Inr s, calls @ [(start s, page_size C)])
          else
            (case scan_page C page_items (collected s, reached_cutoff s) of
               (acc, reached) \<Rightarrow>
                 if want_new C \<le> int (length acc) \<or> reached
                 then (Inr (s\<lparr>collected := acc, reached_cutoff := reached\<rparr>),
                       calls @ [(start s, page_size C)])
                 else if int (length page_items) < page_size C
                 then (Inr (s\<lparr>collected := acc, reached_cutoff := reached\<rparr>),
                       calls @ [(start s, page_size C)])
                 else paginate C k
                        (s\<lparr>collected := acc, reached_cutoff := reached,
                           start := start s + page_size C\<rparr>)
                        (calls @ [(start s, page_size C)])))"

definition max_pages :: nat where
  "max_pages = 20"

definition pag_init :: pag where
  "pag_init = \<lparr>collected = [], reached_cutoff = False, start = 0\<rparr>"

subsection \<open>Settings, collaborators and the world\<close>

text \<open>
  The values \<^verbatim>\<open>run\<close> reads from the merged configuration. \<^verbatim>\<open>Settings\<close> lives outside
  \<^verbatim>\<open>cli.py\<close>, so \<^verbatim>\<open>cfg.max_results\<close> is taken as it comes: any integer, or unset.
  \<open>cfg_site_wanted\<close> is \<^verbatim>\<open>sd and (site_cfg.get("enabled", False) or site_dir is not None)\<close>,
  \<open>cfg_email_enabled\<close> is \<^verbatim>\<open>email_cfg["enabled"]\<close> after the command line and
  \<^verbatim>\<open>--no-email\<close> were merged in. An unset path is the empty string.
\<close>

record settings =
  cfg_max_results :: "int option"
  cfg_since_days :: int
  cfg_unique_only :: bool
  cfg_state_path :: string
  cfg_fallback_when_empty :: bool
  cfg_out_dir :: string
  cfg_site_wanted :: bool
  cfg_email_enabled :: bool

text \<open>
  What the enabled branch of the mail step does once both guards let it through: it
  reports an incomplete configuration, or something in it raises (port parsing, rendering,
  \<^verbatim>\<open>send_email\<close>), or \<^verbatim>\<open>send_email\<close> returns.
\<close>

datatype mail_result = Incomplete | Raised | Delivered

text \<open>
  The collaborators and the environment of one run. \<open>outputs_ok\<close>: summarising and
  \<^verbatim>\<open>save_json\<close>/\<^verbatim>\<open>save_markdown\<close> raise nothing (they are not guarded, so a failure ends
  the run); \<open>json_path\<close> is what \<^verbatim>\<open>save_json\<close> returns. \<open>augment\<close> is the in-place
  enrichment of an item. The remaining flags say whether a guarded step raises:
  \<open>generate_site_ok\<close> for \<^verbatim>\<open>generate_site\<close> and the lines after it, \<open>flag_dir_ok\<close> for
  \<^verbatim>\<open>flag_dir.mkdir\<close>, \<open>touch_ok\<close> for \<^verbatim>\<open>flag_path.touch()\<close>, \<open>state_write_ok\<close> for creating
  the directory of the state file and opening the file. The imports of the package's own
  modules are taken to succeed, and the PDF export, which is guarded and feeds nothing
  back, is left out.
\<close>

record env =
  iso_parser :: "string \<Rightarrow> int option"
  remote_feed :: "nat \<Rightarrow> int \<Rightarrow> int \<Rightarrow> item list option"
  clock_now :: int
  clock_today :: string
  augment :: "item \<Rightarrow> item"
  outputs_ok :: bool
  json_path :: string
  generate_site_ok :: bool
  flag_dir_ok :: bool
  mail :: mail_result
  touch_ok :: bool
  state_write_ok :: bool

text \<open>
  The seen-set document as \<^verbatim>\<open>json.load\<close> returns it: an object with the key \<^verbatim>\<open>ids\<close>,
  another object (its keys), a bare list, or anything else (also a file that cannot be
  read or parsed). Identifiers are strings.
\<close>

datatype store_doc =
    DocIds "string list"
  | DocKeys "string list"
  | DocList "string list"
  | DocInvalid

datatype notice =
    SiteFailed
  | ProcessGuardSkip
  | FileGuardSkip string
  | EmailConfigIncomplete
  | EmailSent
  | EmailFailed
  | SeenSaved
  | SeenNotWritten
  | SeenSaveFailed

text \<open>
  Everything a run can change: the files at the state paths, the flag files (directory and
  file name), the module variable \<^verbatim>\<open>_SENT_EMAIL\<close>, the calls made to the feed, the mails
  handed to the transport (the items of each) and the messages printed.
\<close>

record world =
  state_files :: "string \<rightharpoonup> store_doc"
  flag_files :: "(string \<times> string) set"
  SENT_EMAIL :: bool
  fetch_calls :: "(int \<times> int) list"
  outbox :: "item list list"
  console :: "notice list"

definition say :: "notice \<Rightarrow> world \<Rightarrow> world" where
  "say n w = w\<lparr>console := console w @ [n]\<rparr>"

text \<open>A new process starts with \<^verbatim>\<open>_SENT_EMAIL = False\<close> and finds the files as they were left.\<close>

definition fresh_process :: "world \<Rightarrow> world" where
  "fresh_process w = w\<lparr>SENT_EMAIL := False\<rparr>"

record report =
  items :: "item list"
  site_generated :: bool
  email_sent :: bool

subsection \<open>The sync window and the seen-set store\<close>

text \<open>\<^verbatim>\<open>want_new = int(cfg.max_results or 50)\<close>\<close>

definition want_new_of :: "int option \<Rightarrow> int" where
  "want_new_of m = (case m of None \<Rightarrow> 50 | Some n \<Rightarrow> if n = 0 then 50 else n)"

text \<open>\<^verbatim>\<open>page_size = min(200, max(25, want_new))\<close>\<close>

definition page_size_of :: "int \<Rightarrow> int" where
  "page_size_of n = min 200 (max 25 n)"

definition day_us :: int where
  "day_us = 86400000000"

text \<open>
  \<^verbatim>\<open>datetime.now(timezone.utc) - timedelta(days=since_days) if since_days > 0 else None\<close>.
  \<^verbatim>\<open>timedelta\<close> accepts at most 999999999 days and a datetime before year 1 does not
  exist: both raise \<^verbatim>\<open>OverflowError\<close>, which ends the run.
\<close>

definition cutoff_of :: "int \<Rightarrow> int \<Rightarrow> error + int option" where
  "cutoff_of now_us days =
     (if 0 < days then
        (if 999999999 < days \<or> now_us - days * day_us < 0 then Inl OverflowError
         else Inr (Some (now_us - days * day_us)))
      else Inr None)"

text \<open>
  Reading the seen set: only with \<^verbatim>\<open>unique_only and state_path\<close>; a missing file and
  every exception give the empty set.
\<close>

definition load_seen :: "bool \<Rightarrow> string \<Rightarrow> (string \<rightharpoonup> store_doc) \<Rightarrow> string set" where
  "load_seen uo path files =
     (if uo \<and> path \<noteq> [] then
        (case files path of
           None \<Rightarrow> {}
         | Some (DocIds ids) \<Rightarrow> set ids
         | Some (DocKeys ks) \<Rightarrow> set ks
         | Some (DocList xs) \<Rightarrow> set xs
         | Some DocInvalid \<Rightarrow> {})
      else {})"

definition sync_window :: "settings \<Rightarrow> env \<Rightarrow> world \<Rightarrow> error + pctx" where
  "sync_window st E w =
     (case cutoff_of (clock_now E) (cfg_since_days st) of
        Inl e \<Rightarrow> Inl e
      | Inr c \<Rightarrow>
          Inr \<lparr>fromisoformat = iso_parser E,
               feed = remote_feed E,
               cutoff = c,
               unique_only = cfg_unique_only st,
               seen_ids = load_seen (cfg_unique_only st) (cfg_state_path st) (state_files w),
               want_new = want_new_of (cfg_max_results st),
               page_size = page_size_of (want_new_of (cfg_max_results st))\<rparr>)"

subsection \<open>Fallback fetch and the selection of a run's items\<close>

text \<open>\<^verbatim>\<open>if not collected and fallback_when_empty: collected = parse_feed(fetch(start=0, max_results=want_new)) or []\<close>\<close>

definition fallback_fetch ::
    "pctx \<Rightarrow> bool \<Rightarrow> item list \<Rightarrow> (int \<times> int) list \<Rightarrow> (error + item list) \<times> (int \<times> int) list" where
  "fallback_fetch C fallback_when_empty acc calls =
     (if acc = [] \<and> fallback_when_empty then
        (case feed C (length calls) 0 (want_new C) of
           None \<Rightarrow> (Inl FeedError, calls @ [(0, want_new C)])
         | Some xs \<Rightarrow> (Inr xs, calls @ [(0, want_new C)]))
      else (Inr acc, calls))"

definition select_items ::
    "pctx \<Rightarrow> bool \<Rightarrow> (int \<times> int) list \<Rightarrow> (error + item list) \<times> (int \<times> int) list" where
  "select_items C fallback_when_empty calls =
     (case paginate C max_pages pag_init calls of
        (Inl e, calls') \<Rightarrow> (Inl e, calls')
      | (Inr p, calls') \<Rightarrow> fallback_fetch C fallback_when_empty (collected p) calls')"

subsection \<open>The snapshot stamp\<close>

text \<open>\<^verbatim>\<open>os.path.basename\<close> on POSIX: what follows the last slash.\<close>

definition basename :: "string \<Rightarrow> string" where
  "basename p = rev (takeWhile (\<lambda>c. c \<noteq> CHR ''/'') (rev p))"

definition is_digit :: "char \<Rightarrow> bool" where
  "is_digit c = (c \<in> set ''0123456789'')"

text \<open>
  The pattern \<^verbatim>\<open>arxiv_(\d{8}_\d{6})\<close> matched at the head of a string; the result is
  group 1, the fifteen characters after \<^verbatim>\<open>arxiv_\<close>. On ASCII strings \<^verbatim>\<open>\d\<close> is a
  digit from 0 to 9.
\<close>

definition stamp_at :: "string \<Rightarrow> string option" where
  "stamp_at s =
     (if take 6 s = ''arxiv_''
         \<and> length (take 8 (drop 6 s)) = 8 \<and> list_all is_digit (take 8 (drop 6 s))
         \<and> take 1 (drop 14 s) = ''_''
         \<and> length (take 6 (drop 15 s)) = 6 \<and> list_all is_digit (take 6 (drop 15 s))
      then Some (take 15 (drop 6 s))
      else None)"

text \<open>\<^verbatim>\<open>re.search\<close>: the leftmost position where the pattern matches.\<close>

fun re_search :: "string \<Rightarrow> string option" where
  "re_search [] = None"
| "re_search (c # cs) =
     (case stamp_at (c # cs) of
        Some g \<Rightarrow> Some g
      | None \<Rightarrow> re_search cs)"

text \<open>
  \<^verbatim>\<open>_extract_stamp_from_path\<close>. Its own \<^verbatim>\<open>try\<close> swallows every exception and
  \<^verbatim>\<open>time.strftime("%Y%m%d")\<close> (the parameter \<open>today\<close>) raises nothing, so the function
  always returns; the result type keeps the shape the caller expects.
\<close>

definition extract_stamp_from_path :: "string \<Rightarrow> string \<Rightarrow> error + string" where
  "extract_stamp_from_path today path =
     (case re_search (basename path) of
        Some g \<Rightarrow> Inr g
      | None \<Rightarrow> Inr today)"

text \<open>
  \<^verbatim>\<open>_fallback_stamp\<close>: \<^verbatim>\<open>os.path.splitext(os.path.basename(p))[0]\<close>. The extension starts
  at the last dot, unless only dots come before it.
\<close>

definition fallback_stamp :: "string \<Rightarrow> string" where
  "fallback_stamp p =
     (let b = basename p;
          root = rev (drop 1 (dropWhile (\<lambda>c. c \<noteq> CHR ''.'') (rev b)))
      in if CHR ''.'' \<in> set b \<and> list_ex (\<lambda>c. c \<noteq> CHR ''.'') root then root else b)"

text \<open>
  The stamp as \<^verbatim>\<open>run\<close> computes it:
  \<^verbatim>\<open>try: stamp = _extract_stamp_from_path(json_path)\<close>
  \<^verbatim>\<open>except Exception: stamp = _fallback_stamp(json_path)\<close>
\<close>

definition snapshot_stamp :: "string \<Rightarrow> string \<Rightarrow> string" where
  "snapshot_stamp today path =
     (case extract_stamp_from_path today path of
        Inr s \<Rightarrow> s
      | Inl e \<Rightarrow> fallback_stamp path)"

text \<open>
  The token in the specification's words, to state what \<^term>\<open>re_search\<close> finds: eight
  digits, an underscore and six digits after \<^verbatim>\<open>arxiv_\<close>, somewhere in the name.
\<close>

definition timestamp_token :: "string \<Rightarrow> string \<Rightarrow> bool" where
  "timestamp_token d8 d6 =
     (length d8 = 8 \<and> list_all is_digit d8 \<and> length d6 = 6 \<and> list_all is_digit d6)"

definition contains_token :: "string \<Rightarrow> bool" where
  "contains_token name =
     (\<exists>pre d8 d6 post. name = pre @ ''arxiv_'' @ d8 @ ''_'' @ d6 @ post \<and> timestamp_token d8 d6)"

subsection \<open>The delivery guard and the mail step\<close>

text \<open>\<^verbatim>\<open>pathlib.Path(out_dir or "outputs")\<close> and \<^verbatim>\<open>f"email_sent_{stamp}.flag"\<close>\<close>

definition flag_dir :: "string \<Rightarrow> string" where
  "flag_dir out_dir = (if out_dir = [] then ''outputs'' else out_dir)"

definition flag_name :: "string \<Rightarrow> string" where
  "flag_name stamp = ''email_sent_'' @ stamp @ ''.flag''"

definition flag_path :: "settings \<Rightarrow> env \<Rightarrow> string \<times> string" where
  "flag_path st E =
     (flag_dir (cfg_out_dir st), flag_name (snapshot_stamp (clock_today E) (json_path E)))"

text \<open>
  Step 7 of \<^verbatim>\<open>run\<close>; the result is the new world and \<^verbatim>\<open>email_sent\<close>. A tripped guard
  switches \<^verbatim>\<open>email_cfg["enabled"]\<close> off and prints a notice; an exception anywhere in the
  step is caught and printed; a failing \<^verbatim>\<open>flag_path.touch()\<close> is ignored.
\<close>

definition notify :: "settings \<Rightarrow> env \<Rightarrow> item list \<Rightarrow> world \<Rightarrow> world \<times> bool" where
  "notify st E its w =
     (if \<not> cfg_email_enabled st then (w, False)
      else
        (let w1 = (if SENT_EMAIL w then say ProcessGuardSkip w else w);
             enabled1 = (\<not> SENT_EMAIL w)
         in if \<not> flag_dir_ok E then (say EmailFailed w1, False)
            else
              (let tripped = (enabled1 \<and> flag_path st E \<in> flag_files w1);
                   w2 = (if tripped
                         then say (FileGuardSkip (snapshot_stamp (clock_today E) (json_path E))) w1
                         else w1)
               in if \<not> (enabled1 \<and> \<not> tripped) then (w2, False)
                  else
                    (case mail E of
                       Incomplete \<Rightarrow> (say EmailConfigIncomplete w2, False)
                     | Raised \<Rightarrow> (say EmailFailed w2, False)
                     | Delivered \<Rightarrow>
                         (let w3 = w2\<lparr>SENT_EMAIL := True, outbox := outbox w2 @ [its]\<rparr>;
                              w4 = (if touch_ok E
                                    then w3\<lparr>flag_files := insert (flag_path st E) (flag_files w3)\<rparr>
                                    else w3)
                          in (say EmailSent w4, True))))))"

subsection \<open>The outcome-gated committer\<close>

text \<open>\<^verbatim>\<open>for it in items: aid = it.get("id"); if aid: all_seen.add(aid)\<close>\<close>

fun add_ids :: "item list \<Rightarrow> string set \<Rightarrow> string set" where
  "add_ids [] all_seen = all_seen"
| "add_ids (it # rest) all_seen =
     (case item_id it of
        None \<Rightarrow> add_ids rest all_seen
      | Some aid \<Rightarrow>
          if aid = [] then add_ids rest all_seen
          else add_ids rest (insert aid all_seen))"

text \<open>
  Step 8 of \<^verbatim>\<open>run\<close>. A failure to create the directory or to open the file is caught and
  printed, and leaves the file as it was. (An input/output error in the middle of
  \<^verbatim>\<open>json.dump\<close>, which would leave a truncated file, is not modelled.) The list written is
  \<^verbatim>\<open>sorted(all_seen)\<close>; strings are ordered character by character.
\<close>

definition commit_seen ::
    "settings \<Rightarrow> env \<Rightarrow> string set \<Rightarrow> item list \<Rightarrow> bool \<Rightarrow> bool \<Rightarrow> world \<Rightarrow> world" where
  "commit_seen st E seen its site_ok mail_ok w =
     (if cfg_unique_only st \<and> cfg_state_path st \<noteq> [] \<and> its \<noteq> [] \<and> (site_ok \<or> mail_ok) then
        (if state_write_ok E
         then say SeenSaved
                (w\<lparr>state_files :=
                     (state_files w)(cfg_state_path st \<mapsto>
                        DocIds (sorted_list_of_set (add_ids its seen)))\<rparr>)
         else say SeenSaveFailed w)
      else if cfg_unique_only st \<and> its \<noteq> [] then say SeenNotWritten w
      else w)"

subsection \<open>One run\<close>

text \<open>
  \<^verbatim>\<open>run\<close> from the query to the commit. \<^term>\<open>Inl\<close> is an exception that reaches the
  handler at the end of \<^verbatim>\<open>run\<close> (exit status 1); after the files are saved every step is
  guarded, so nothing ends the run from there on.
\<close>

definition run :: "settings \<Rightarrow> env \<Rightarrow> world \<Rightarrow> world \<times> (error + report)" where
  "run st E w =
     (case sync_window st E w of
        Inl e \<Rightarrow> (w, Inl e)
      | Inr C \<Rightarrow>
          (case select_items C (cfg_fallback_when_empty st) (fetch_calls w) of
             (Inl e, calls) \<Rightarrow> (w\<lparr>fetch_calls := calls\<rparr>, Inl e)
           | (Inr acc, calls) \<Rightarrow>
               if \<not> outputs_ok E then (w\<lparr>fetch_calls := calls\<rparr>, Inl OutputError)
               else
                 (let its = map (augment E) acc;
                      site_ok = (cfg_site_wanted st \<and> generate_site_ok E);
                      w1 = (if cfg_site_wanted st \<and> \<not> generate_site_ok E
                            then say SiteFailed (w\<lparr>fetch_calls := calls\<rparr>)
                            else w\<lparr>fetch_calls := calls\<rparr>)
                  in (case notify st E its w1 of
                        (w2, mail_ok) \<Rightarrow>
                          (commit_seen st E (seen_ids C) its site_ok mail_ok w2,
                           Inr \<lparr>items = its, site_generated = site_ok,
                                email_sent = mail_ok\<rparr>)))))"

subsection \<open>Data for the worked examples\<close>

definition paper :: "string \<Rightarrow> string \<Rightarrow> item" where
  "paper ident stamp = \<lparr>item_id = Some ident, updated = Some stamp, published = None, title = ident\<rparr>"

text \<open>An item without the key \<^verbatim>\<open>id\<close>.\<close>

definition anonymous :: item where
  "anonymous = \<lparr>item_id = None, updated = Some ''2024-01-01T00:00:00Z'', published = None,
                 title = ''untitled''\<rparr>"

text \<open>A stand-in for \<^verbatim>\<open>datetime.fromisoformat\<close> that knows four instants.\<close>

definition calendar :: "string \<Rightarrow> int option" where
  "calendar =
     map_of [(''2024-01-01T00:00:00+00:00'', 63839664000000000),
             (''2024-01-07T00:00:00+00:00'', 63840182400000000),
             (''2024-01-09T22:00:00+00:00'', 63840434400000000),
             (''2024-01-10T00:00:00+00:00'', 63840441600000000)]"

definition a1 :: item where "a1 = paper ''a1'' ''2024-01-01T00:00:00Z''"
definition a2 :: item where "a2 = paper ''a2'' ''2024-01-01T00:00:00Z''"
definition a3 :: item where "a3 = paper ''a3'' ''2024-01-01T00:00:00Z''"

definition n0 :: item where "n0 = paper ''n0'' ''2024-01-10T00:00:00Z''"
definition n1 :: item where "n1 = paper ''n1'' ''2024-01-09T22:00:00Z''"
definition n2 :: item where "n2 = paper ''n2'' ''2024-01-07T00:00:00Z''"

text \<open>A feed that answers every request at offset 0 with the same page and has nothing beyond.\<close>

definition one_page :: "item list \<Rightarrow> nat \<Rightarrow> int \<Rightarrow> int \<Rightarrow> item list option" where
  "one_page xs n first_index limit = (if first_index = 0 then Some xs else Some [])"

definition st0 :: settings where
  "st0 = \<lparr>cfg_max_results = Some 10, cfg_since_days = 0, cfg_unique_only = True,
          cfg_state_path = ''.state/seen.json'', cfg_fallback_when_empty = False,
          cfg_out_dir = ''outputs'', cfg_site_wanted = False, cfg_email_enabled = False\<rparr>"

definition env0 :: env where
  "env0 = \<lparr>iso_parser = calendar, remote_feed = one_page [a1, a2, a3],
           clock_now = 63840441600000000, clock_today = ''20240110'',
           augment = (\<lambda>it. it), outputs_ok = True,
           json_path = ''outputs/arxiv_20240110_080000.json'',
           generate_site_ok = True, flag_dir_ok = True, mail = Delivered,
           touch_ok = True, state_write_ok = True\<rparr>"

definition w0 :: world where
  "w0 = \<lparr>state_files = [''.state/seen.json'' \<mapsto> DocIds [''a1'', ''a2'']],
         flag_files = {}, SENT_EMAIL = False, fetch_calls = [], outbox = [], console = []\<rparr>"

text \<open>A feed with a first page, a second page at the offset of one page, and nothing beyond.\<close>

definition two_pages :: "item list \<Rightarrow> item list \<Rightarrow> nat \<Rightarrow> int \<Rightarrow> int \<Rightarrow> item list option" where
  "two_pages p0 p1 n first_index limit =
     (if first_index = 0 then Some p0 else if first_index = limit then Some p1 else Some [])"

text \<open>
  The cutoff scenario of the specification: a freshness window of one day and a page with
  items dated now, two hours ago and three days ago.
\<close>

definition st_cut :: settings where
  "st_cut = st0\<lparr>cfg_since_days := 1, cfg_unique_only := False\<rparr>"

definition env_cut :: env where
  "env_cut = env0\<lparr>remote_feed := one_page [n0, n1, n2]\<rparr>"

definition ctx_cut :: pctx where
  "ctx_cut = \<lparr>fromisoformat = calendar, feed = one_page [n0, n1, n2],
              cutoff = Some 63840355200000000, unique_only = False, seen_ids = {},
              want_new = 10, page_size = 25\<rparr>"

text \<open>The window that \<^term>\<open>sync_window\<close> derives from \<^term>\<open>st0\<close>, \<^term>\<open>env0\<close> and \<^term>\<open>w0\<close>.\<close>

definition ctx0 :: pctx where
  "ctx0 = \<lparr>fromisoformat = calendar, feed = one_page [a1, a2, a3], cutoff = None,
           unique_only = True, seen_ids = {''a1'', ''a2''}, want_new = 10, page_size = 25\<rparr>"

text \<open>A full first page of seen items followed by a short page with a new one.\<close>

definition ctx_two :: pctx where
  "ctx_two = ctx0\<lparr>feed := two_pages (replicate 25 a1) [a3]\<rparr>"

text \<open>Runs in which the site is generated, and in which both publication steps are tried and fail.\<close>

definition st_site :: settings where
  "st_site = st0\<lparr>cfg_site_wanted := True\<rparr>"

definition st_both :: settings where
  "st_both = st0\<lparr>cfg_site_wanted := True, cfg_email_enabled := True\<rparr>"

definition env_failing :: env where
  "env_failing = env0\<lparr>generate_site_ok := False, mail := Raised\<rparr>"

text \<open>A feed whose page starts with an item that has no identifier.\<close>

definition env_anon :: env where
  "env_anon = env0\<lparr>remote_feed := one_page [anonymous, a3]\<rparr>"

text \<open>Mail enabled, nothing else; and a file system on which the flag file cannot be created.\<close>

definition st_mail :: settings where
  "st_mail = st0\<lparr>cfg_email_enabled := True\<rparr>"

definition env_no_touch :: env where
  "env_no_touch = env0\<lparr>touch_ok := False\<rparr>"

section \<open>Properties\<close>

subsection \<open>Unfolding the model on concrete data\<close>

lemmas fixture_defs = st0_def env0_def w0_def ctx0_def st_site_def st_both_def env_failing_def
  env_anon_def st_mail_def env_no_touch_def st_cut_def env_cut_def ctx_cut_def ctx_two_def
  a1_def a2_def a3_def n0_def n1_def n2_def
  paper_def anonymous_def calendar_def one_page_def two_pages_def

lemmas stage_defs = run_def sync_window_def select_items_def fallback_fetch_def notify_def
  commit_seen_def load_seen_def cutoff_of_def want_new_of_def page_size_of_def day_us_def
  say_def fresh_process_def flag_path_def flag_dir_def flag_name_def snapshot_stamp_def
  extract_stamp_from_path_def basename_def stamp_at_def is_digit_def fallback_stamp_def
  before_cutoff_def already_seen_def effective_time_def parse_dt_def replace_Z_def pag_init_def
  max_pages_def

text \<open>The page budget is a numeral; this is the second equation of \<^term>\<open>paginate\<close> for it.\<close>

lemma paginate_numeral:
  "paginate C (numeral v) s calls =
     (case feed C (length calls) (start s) (page_size C) of
        None \<Rightarrow> (Inl FeedError, calls @ [(start s, page_size C)])
      | Some page_items \<Rightarrow>
          if page_items = [] then (Inr s, calls @ [(start s, page_size C)])
          else
            (case scan_page C page_items (collected s, reached_cutoff s) of
               (acc, reached) \<Rightarrow>
                 if want_new C \<le> int (length acc) \<or> reached
                 then (Inr (s\<lparr>collected := acc, reached_cutoff := reached\<rparr>),
                       calls @ [(start s, page_size C)])
                 else if int (length page_items) < page_size C
                 then (Inr (s\<lparr>collected := acc, reached_cutoff := reached\<rparr>),
                       calls @ [(start s, page_size C)])
                 else paginate C (pred_numeral v)
                        (s\<lparr>collected := acc, reached_cutoff := reached,
                           start := start s + page_size C\<rparr>)
                        (calls @ [(start s, page_size C)])))"
  unfolding numeral_eq_Suc by (rule paginate.simps(2))

subsection \<open>One page\<close>

lemma scan_page_subset:
  "set (fst (scan_page C page (acc, r)))
     \<subseteq> set acc \<union> {x \<in> set page. \<not> before_cutoff C x \<and> \<not> already_seen C x}"
proof (induction page arbitrary: acc r)
  case Nil
  then show ?case by simp
next
  case (Cons it rest)
  show ?case
    using Cons.IH [of acc r] Cons.IH [of "acc @ [it]" r] by auto
qed

lemma scan_page_extends:
  "\<exists>ys. fst (scan_page C page (acc, r)) = acc @ ys"
proof (induction page arbitrary: acc r)
  case Nil
  then show ?case by simp
next
  case (Cons it rest)
  from Cons.IH [of "acc @ [it]" r] obtain ys
    where "fst (scan_page C rest (acc @ [it], r)) = acc @ it # ys" by auto
  with Cons.IH [of acc r] show ?case by auto
qed

lemma scan_page_reached_mono:
  "r \<Longrightarrow> snd (scan_page C page (acc, r))"
  by (induction page arbitrary: acc) auto

lemma scan_page_cutoff_hit:
  "before_cutoff C x \<Longrightarrow>
   int (length (fst (scan_page C pre (acc, r)))) < want_new C \<Longrightarrow>
   scan_page C (pre @ x # post) (acc, r) = (fst (scan_page C pre (acc, r)), True)"
proof (induction pre arbitrary: acc r)
  case Nil
  then show ?case by simp
next
  case (Cons it pre)
  then show ?case by (auto split: if_splits)
qed


subsection \<open>The page loop\<close>

lemma paginate_invariant:
  assumes step: "\<And>page acc r. I acc \<Longrightarrow> I (fst (scan_page C page (acc, r)))"
    and init: "I (collected s)"
    and res: "paginate C k s calls = (Inr p, calls')"
  shows "I (collected p)"
  using init res
proof (induction k arbitrary: s calls)
  case 0
  then show ?case by auto
next
  case (Suc k)
  from Suc.prems(2) obtain page where page: "feed C (length calls) (start s) (page_size C) = Some page"
    by (auto split: option.splits)
  obtain acc reached where sc: "scan_page C page (collected s, reached_cutoff s) = (acc, reached)"
    by (cases "scan_page C page (collected s, reached_cutoff s)")
  have acc: "I acc"
    using step [OF Suc.prems(1), of page "reached_cutoff s"] sc by simp
  show ?case
  proof (cases "page = [] \<or> want_new C \<le> int (length acc) \<or> reached \<or> int (length page) < page_size C")
    case True
    with Suc.prems page sc acc show ?thesis by (auto split: if_splits)
  next
    case False
    let ?s' = "s\<lparr>collected := acc, reached_cutoff := reached, start := start s + page_size C\<rparr>"
    from acc have inv: "I (collected ?s')" by simp
    from Suc.prems(2) page sc False
    have "paginate C k ?s' (calls @ [(start s, page_size C)]) = (Inr p, calls')" by simp
    from Suc.IH [OF inv this] show ?thesis .
  qed
qed

lemma paginate_stop:
  "feed C (length calls) (start s) (page_size C) = Some page \<Longrightarrow> page \<noteq> [] \<Longrightarrow>
   scan_page C page (collected s, reached_cutoff s) = (acc, reached) \<Longrightarrow>
   want_new C \<le> int (length acc) \<or> reached \<or> int (length page) < page_size C \<Longrightarrow>
   paginate C (Suc k) s calls
     = (Inr (s\<lparr>collected := acc, reached_cutoff := reached\<rparr>), calls @ [(start s, page_size C)])"
  by auto

lemma paginate_advance:
  "feed C (length calls) (start s) (page_size C) = Some page \<Longrightarrow> page \<noteq> [] \<Longrightarrow>
   scan_page C page (collected s, reached_cutoff s) = (acc, reached) \<Longrightarrow>
   \<not> (want_new C \<le> int (length acc) \<or> reached \<or> int (length page) < page_size C) \<Longrightarrow>
   paginate C (Suc k) s calls
     = paginate C k (s\<lparr>collected := acc, reached_cutoff := reached, start := start s + page_size C\<rparr>)
         (calls @ [(start s, page_size C)])"
  by simp

lemma paginate_empty_page:
  "feed C (length calls) (start s) (page_size C) = Some [] \<Longrightarrow>
   paginate C (Suc k) s calls = (Inr s, calls @ [(start s, page_size C)])"
  by simp

lemma paginate_raise:
  "feed C (length calls) (start s) (page_size C) = None \<Longrightarrow>
   paginate C (Suc k) s calls = (Inl FeedError, calls @ [(start s, page_size C)])"
  by simp

lemma map_upt_shift:
  "(a, b) # map (\<lambda>i. (a + b + int i * b, b)) [0..<n] = map (\<lambda>i. (a + int i * b, b)) [0..<Suc n]"
proof -
  have "map (\<lambda>i. (a + int i * b, b)) [0..<Suc n]
        = (a, b) # map (\<lambda>i. (a + int i * b, b)) (map Suc [0..<n])"
    by (simp only: map_Suc_upt upt_conv_Cons [of 0 "Suc n"]) simp
  also have "map (\<lambda>i. (a + int i * b, b)) (map Suc [0..<n]) = map (\<lambda>i. (a + b + int i * b, b)) [0..<n]"
    by (simp add: algebra_simps)
  finally show ?thesis by simp
qed

lemma paginate_calls:
  "\<exists>n\<le>k. (0 < k \<longrightarrow> 0 < n) \<and>
     snd (paginate C k s calls)
       = calls @ map (\<lambda>i. (start s + int i * page_size C, page_size C)) [0..<n]"
proof (induction k arbitrary: s calls)
  case 0
  then show ?case by simp
next
  case (Suc k)
  let ?c = "(start s, page_size C)"
  have one: "calls @ [?c] = calls @ map (\<lambda>i. (start s + int i * page_size C, page_size C)) [0..<1]"
    by simp
  show ?case
  proof (cases "feed C (length calls) (start s) (page_size C)")
    case None
    then have "snd (paginate C (Suc k) s calls) = calls @ [?c]" by simp
    with one show ?thesis by (intro exI [of _ 1]) simp
  next
    case (Some page)
    obtain acc reached where sc: "scan_page C page (collected s, reached_cutoff s) = (acc, reached)"
      by (cases "scan_page C page (collected s, reached_cutoff s)")
    show ?thesis
    proof (cases "page = [] \<or> want_new C \<le> int (length acc) \<or> reached \<or> int (length page) < page_size C")
      case True
      with Some sc have "snd (paginate C (Suc k) s calls) = calls @ [?c]" by auto
      with one show ?thesis by (intro exI [of _ 1]) simp
    next
      case False
      let ?s' = "s\<lparr>collected := acc, reached_cutoff := reached, start := start s + page_size C\<rparr>"
      from False Some sc
      have eq: "paginate C (Suc k) s calls = paginate C k ?s' (calls @ [?c])" by simp
      from Suc.IH [of ?s' "calls @ [?c]"] obtain n where n: "n \<le> k"
        and sn: "snd (paginate C k ?s' (calls @ [?c]))
                 = (calls @ [?c]) @ map (\<lambda>i. (start ?s' + int i * page_size C, page_size C)) [0..<n]"
        by blast
      have "snd (paginate C (Suc k) s calls)
            = calls @ (?c # map (\<lambda>i. (start s + page_size C + int i * page_size C, page_size C)) [0..<n])"
        using eq sn by simp
      also have "\<dots> = calls @ map (\<lambda>i. (start s + int i * page_size C, page_size C)) [0..<Suc n]"
        by (simp only: map_upt_shift)
      finally show ?thesis using n by (intro exI [of _ "Suc n"]) simp
    qed
  qed
qed


lemma paginate_unseen:
  assumes "paginate C k pag_init calls = (Inr p, calls')"
  shows "\<forall>it\<in>set (collected p). \<not> already_seen C it \<and> \<not> before_cutoff C it"
proof -
  let ?I = "\<lambda>acc. \<forall>it\<in>set acc. \<not> already_seen C it \<and> \<not> before_cutoff C it"
  have step: "\<And>page acc r. ?I acc \<Longrightarrow> ?I (fst (scan_page C page (acc, r)))"
    using scan_page_subset by blast
  have "?I (collected pag_init)" by (simp add: pag_init_def)
  from paginate_invariant [where I = ?I, OF step this assms] show ?thesis .
qed

lemma select_items_plain:
  "paginate C max_pages pag_init calls = (Inr p, calls') \<Longrightarrow> collected p \<noteq> [] \<or> \<not> fb \<Longrightarrow>
   select_items C fb calls = (Inr (collected p), calls')"
  by (auto simp: select_items_def fallback_fetch_def)

section \<open>The claims\<close>

subsection \<open>C3: quota bound\<close>




subsection \<open>C4: dedup exclusion\<close>




subsection \<open>C5: cutoff exclusion\<close>

text \<open>
  Claim C5, as the code has it. Whenever a cutoff is configured (\<^verbatim>\<open>since_days > 0\<close>), it
  is the instant \<^verbatim>\<open>since_days\<close> days before now, and no item of the paginator's accumulated
  list has an effective timestamp (\<^verbatim>\<open>updated\<close>, else \<^verbatim>\<open>published\<close>) strictly before it.
  That list is the result of the run unless it is empty and the fallback flag is set (the
  fallback fetch applies no cutoff). An item before the cutoff that the scan comes to
  sets \<^verbatim>\<open>reached_cutoff\<close> and ends the scan of its page, whatever follows it in the page;
  and a page whose scan ends with \<^verbatim>\<open>reached_cutoff\<close> set is the last page fetched.
\<close>

theorem cutoff_exclusion:
  "sync_window st E w = Inr C \<Longrightarrow> 0 < cfg_since_days st \<Longrightarrow>
   paginate C max_pages pag_init calls = (Inr p, calls') \<Longrightarrow>
     cutoff C = Some (clock_now E - cfg_since_days st * day_us)
   \<and> (\<forall>it\<in>set (collected p). \<forall>t. effective_time (iso_parser E) it = Some t
          \<longrightarrow> clock_now E - cfg_since_days st * day_us \<le> t)
   \<and> (collected p \<noteq> [] \<or> \<not> fb \<longrightarrow> select_items C fb calls = (Inr (collected p), calls'))
   \<and> (\<forall>pre x post acc r.
         before_cutoff C x \<and> int (length (fst (scan_page C pre (acc, r)))) < want_new C
         \<longrightarrow> scan_page C (pre @ x # post) (acc, r) = (fst (scan_page C pre (acc, r)), True))
   \<and> (\<forall>k s cs page acc.
         feed C (length cs) (start s) (page_size C) = Some page \<and> page \<noteq> []
         \<and> scan_page C page (collected s, reached_cutoff s) = (acc, True)
         \<longrightarrow> paginate C (Suc k) s cs
               = (Inr (s\<lparr>collected := acc, reached_cutoff := True\<rparr>),
                  cs @ [(start s, page_size C)]))"
proof (intro conjI)
  assume win: "sync_window st E w = Inr C" and days: "0 < cfg_since_days st"
    and res: "paginate C max_pages pag_init calls = (Inr p, calls')"
  from win days show cut: "cutoff C = Some (clock_now E - cfg_since_days st * day_us)"
    by (auto simp: sync_window_def cutoff_of_def split: if_splits sum.splits)
  from win have iso: "fromisoformat C = iso_parser E"
    by (auto simp: sync_window_def split: sum.splits)
  from paginate_unseen [OF res] cut iso
  show "\<forall>it\<in>set (collected p). \<forall>t. effective_time (iso_parser E) it = Some t
          \<longrightarrow> clock_now E - cfg_since_days st * day_us \<le> t"
    by (fastforce simp: before_cutoff_def)
  from res show "collected p \<noteq> [] \<or> \<not> fb \<longrightarrow> select_items C fb calls = (Inr (collected p), calls')"
    using select_items_plain by blast
next
  show "\<forall>pre x post acc r.
         before_cutoff C x \<and> int (length (fst (scan_page C pre (acc, r)))) < want_new C
         \<longrightarrow> scan_page C (pre @ x # post) (acc, r) = (fst (scan_page C pre (acc, r)), True)"
    using scan_page_cutoff_hit by blast
next
  show "\<forall>k s cs page acc.
         feed C (length cs) (start s) (page_size C) = Some page \<and> page \<noteq> []
         \<and> scan_page C page (collected s, reached_cutoff s) = (acc, True)
         \<longrightarrow> paginate C (Suc k) s cs
               = (Inr (s\<lparr>collected := acc, reached_cutoff := True\<rparr>),
                  cs @ [(start s, page_size C)])"
    using paginate_stop by blast
qed

text \<open>
  The scenario of the specification: cutoff one day before now, a page with items dated
  now, two hours ago and three days ago. The result is the first two items, with
  \<^verbatim>\<open>reached_cutoff\<close> set, after one fetch.
\<close>

theorem cutoff_exclusion_witness:
  "sync_window st_cut env_cut w0 = Inr ctx_cut \<and> 0 < cfg_since_days st_cut
   \<and> paginate ctx_cut max_pages pag_init []
       = (Inr \<lparr>collected = [n0, n1], reached_cutoff = True, start = 0\<rparr>, [(0, 25)])
   \<and> cutoff ctx_cut = Some 63840355200000000
   \<and> effective_time calendar n1 = Some 63840434400000000
   \<and> effective_time calendar n2 = Some 63840182400000000
   \<and> before_cutoff ctx_cut n2
   \<and> select_items ctx_cut False [] = (Inr [n0, n1], [(0, 25)])
   \<and> scan_page ctx_cut ([n0, n1] @ n2 # [n0]) ([], False) = ([n0, n1], True)
   \<and> paginate ctx_cut (Suc 19) pag_init []
       = (Inr \<lparr>collected = [n0, n1], reached_cutoff = True, start = 0\<rparr>, [(0, 25)])"
proof -
  have win: "sync_window st_cut env_cut w0 = Inr ctx_cut"
    by (simp add: fixture_defs stage_defs)
  have days: "0 < cfg_since_days st_cut"
    by (simp add: fixture_defs)
  have res: "paginate ctx_cut max_pages pag_init []
       = (Inr \<lparr>collected = [n0, n1], reached_cutoff = True, start = 0\<rparr>, [(0, 25)])"
    by (simp add: fixture_defs stage_defs paginate_numeral)
  have t1: "effective_time calendar n1 = Some 63840434400000000"
    and t2: "effective_time calendar n2 = Some 63840182400000000"
    by (simp_all add: fixture_defs stage_defs)
  have old: "before_cutoff ctx_cut n2"
    by (simp add: fixture_defs stage_defs)
  have pre: "scan_page ctx_cut [n0, n1] ([], False) = ([n0, n1], False)"
    by (simp add: fixture_defs stage_defs)
  have page: "feed ctx_cut (length ([] :: (int \<times> int) list)) (start pag_init) (page_size ctx_cut)
                = Some [n0, n1, n2]"
    by (simp add: fixture_defs stage_defs)
  have scan: "scan_page ctx_cut [n0, n1, n2] (collected pag_init, reached_cutoff pag_init)
                = ([n0, n1], True)"
    by (simp add: fixture_defs stage_defs)
  have quota: "int (length (fst (scan_page ctx_cut [n0, n1] ([], False)))) < want_new ctx_cut"
    by (simp add: pre) (simp add: ctx_cut_def)
  note inst = cutoff_exclusion [OF win days res, of False]
  note inst_cut = inst [THEN conjunct1]
  note inst_sel = inst [THEN conjunct2, THEN conjunct2, THEN conjunct1]
  note inst_hit = inst [THEN conjunct2, THEN conjunct2, THEN conjunct2, THEN conjunct1,
      rule_format, of n2 "[n0, n1]" "[]" False "[n0]"]
  note inst_stop = inst [THEN conjunct2, THEN conjunct2, THEN conjunct2, THEN conjunct2,
      rule_format, of "[]" pag_init "[n0, n1, n2]" "[n0, n1]" 19]
  from inst_cut have cut: "cutoff ctx_cut = Some 63840355200000000"
    by (simp add: fixture_defs day_us_def)
  from inst_sel have sel: "select_items ctx_cut False [] = (Inr [n0, n1], [(0, 25)])"
    by simp
  from inst_hit old quota pre
  have hit: "scan_page ctx_cut ([n0, n1] @ n2 # [n0]) ([], False) = ([n0, n1], True)"
    by simp
  from inst_stop page scan
  have "paginate ctx_cut (Suc 19) pag_init []
       = (Inr (pag_init\<lparr>collected := [n0, n1], reached_cutoff := True\<rparr>),
          [] @ [(start pag_init, page_size ctx_cut)])"
    by simp
  then have stop: "paginate ctx_cut (Suc 19) pag_init []
       = (Inr \<lparr>collected = [n0, n1], reached_cutoff = True, start = 0\<rparr>, [(0, 25)])"
    by (simp add: pag_init_def ctx_cut_def)
  from win days res cut t1 t2 old sel hit stop show ?thesis
    by - (intro conjI; assumption)
qed

text \<open>
  With the fallback flag set and a feed whose only item is three days old, the paginator
  accumulates nothing and the fallback fetch returns the old item as the run's result.
\<close>

theorem cutoff_exclusion_fallback_counterexample:
  "0 < cfg_since_days (st_cut\<lparr>cfg_fallback_when_empty := True\<rparr>)
   \<and> sync_window (st_cut\<lparr>cfg_fallback_when_empty := True\<rparr>)
        (env_cut\<lparr>remote_feed := one_page [n2]\<rparr>) w0
       = Inr (ctx_cut\<lparr>feed := one_page [n2]\<rparr>)
   \<and> before_cutoff (ctx_cut\<lparr>feed := one_page [n2]\<rparr>) n2
   \<and> snd (run (st_cut\<lparr>cfg_fallback_when_empty := True\<rparr>)
             (env_cut\<lparr>remote_feed := one_page [n2]\<rparr>) w0)
       = Inr \<lparr>items = [n2], site_generated = False, email_sent = False\<rparr>"
  by (simp add: fixture_defs stage_defs paginate_numeral)

subsection \<open>C7: bounded pagination\<close>

lemma paginate_short_first_page:
  "feed C (length calls) 0 (page_size C) = Some page \<Longrightarrow>
   page = [] \<or> int (length page) < page_size C \<Longrightarrow>
   snd (paginate C max_pages pag_init calls) = calls @ [(0, page_size C)]"
  by (cases "scan_page C page ([], False)")
     (auto simp: max_pages_def paginate_numeral pag_init_def)

text \<open>
  Claim C7. The page loop calls the feed at least once and at most \<^term>\<open>max_pages\<close> = 20
  times, the \<open>i\<close>-th call (from 0) asking for \<open>page_size\<close> items at offset \<open>i * page_size\<close>.
  In every iteration, once the page was scanned, the loop returns without a further call
  if the quota is reached, the cutoff is reached or the page held fewer than \<open>page_size\<close>
  items, and otherwise goes on with the offset advanced by \<open>page_size\<close>. A first page that
  is empty or shorter than \<open>page_size\<close> ends the loop after exactly one call, whatever the
  target is.
\<close>

theorem bounded_pagination:
  "(\<exists>n. 1 \<le> n \<and> n \<le> 20
        \<and> snd (paginate C max_pages pag_init calls)
            = calls @ map (\<lambda>i. (int i * page_size C, page_size C)) [0..<n])
   \<and> (\<forall>k s cs page acc reached.
         feed C (length cs) (start s) (page_size C) = Some page \<and> page \<noteq> []
         \<and> scan_page C page (collected s, reached_cutoff s) = (acc, reached)
         \<longrightarrow> (if want_new C \<le> int (length acc) \<or> reached \<or> int (length page) < page_size C
              then paginate C (Suc k) s cs
                     = (Inr (s\<lparr>collected := acc, reached_cutoff := reached\<rparr>),
                        cs @ [(start s, page_size C)])
              else paginate C (Suc k) s cs
                     = paginate C k
                         (s\<lparr>collected := acc, reached_cutoff := reached,
                            start := start s + page_size C\<rparr>)
                         (cs @ [(start s, page_size C)])))
   \<and> (\<forall>page. feed C (length calls) 0 (page_size C) = Some page
               \<and> (page = [] \<or> int (length page) < page_size C)
         \<longrightarrow> snd (paginate C max_pages pag_init calls) = calls @ [(0, page_size C)])"
proof (intro conjI)
  from paginate_calls [of max_pages C pag_init calls]
  obtain n where "n \<le> max_pages" "0 < n"
    and "snd (paginate C max_pages pag_init calls)
           = calls @ map (\<lambda>i. (start pag_init + int i * page_size C, page_size C)) [0..<n]"
    by (auto simp: max_pages_def)
  then show "\<exists>n. 1 \<le> n \<and> n \<le> 20
        \<and> snd (paginate C max_pages pag_init calls)
            = calls @ map (\<lambda>i. (int i * page_size C, page_size C)) [0..<n]"
    by (intro exI [of _ n]) (simp add: max_pages_def pag_init_def)
next
  show "\<forall>k s cs page acc reached.
         feed C (length cs) (start s) (page_size C) = Some page \<and> page \<noteq> []
         \<and> scan_page C page (collected s, reached_cutoff s) = (acc, reached)
         \<longrightarrow> (if want_new C \<le> int (length acc) \<or> reached \<or> int (length page) < page_size C
              then paginate C (Suc k) s cs
                     = (Inr (s\<lparr>collected := acc, reached_cutoff := reached\<rparr>),
                        cs @ [(start s, page_size C)])
              else paginate C (Suc k) s cs
                     = paginate C k
                         (s\<lparr>collected := acc, reached_cutoff := reached,
                            start := start s + page_size C\<rparr>)
                         (cs @ [(start s, page_size C)]))"
  proof (intro allI impI)
    fix k and s :: pag and cs :: "(int \<times> int) list" and page acc reached
    assume h: "feed C (length cs) (start s) (page_size C) = Some page \<and> page \<noteq> []
         \<and> scan_page C page (collected s, reached_cutoff s) = (acc, reached)"
    show "if want_new C \<le> int (length acc) \<or> reached \<or> int (length page) < page_size C
              then paginate C (Suc k) s cs
                     = (Inr (s\<lparr>collected := acc, reached_cutoff := reached\<rparr>),
                        cs @ [(start s, page_size C)])
              else paginate C (Suc k) s cs
                     = paginate C k
                         (s\<lparr>collected := acc, reached_cutoff := reached,
                            start := start s + page_size C\<rparr>)
                         (cs @ [(start s, page_size C)])"
    proof (cases "want_new C \<le> int (length acc) \<or> reached \<or> int (length page) < page_size C")
      case True
      with h paginate_stop [of C cs s page acc reached k] show ?thesis by presburger
    next
      case False
      with h paginate_advance [of C cs s page acc reached k] show ?thesis by presburger
    qed
  qed
next
  show "\<forall>page. feed C (length calls) 0 (page_size C) = Some page
               \<and> (page = [] \<or> int (length page) < page_size C)
         \<longrightarrow> snd (paginate C max_pages pag_init calls) = calls @ [(0, page_size C)]"
    using paginate_short_first_page by blast
qed

lemma scan_seen_page: "scan_page ctx_two (replicate n a1) (acc, r) = (acc, r)"
  by (induction n) (simp_all add: fixture_defs stage_defs)

text \<open>
  A full first page of 25 seen items, then a short page: two calls, at offsets 0 and 25.
  A short first page: one call.
\<close>

theorem bounded_pagination_witness:
  "snd (paginate ctx_two max_pages pag_init []) = [(0, 25), (25, 25)]
   \<and> length (snd (paginate ctx_two max_pages pag_init [])) \<le> 20
   \<and> paginate ctx_two (Suc 19) pag_init []
       = paginate ctx_two 19 \<lparr>collected = [], reached_cutoff = False, start = 25\<rparr> [(0, 25)]
   \<and> paginate ctx_two (Suc 18) \<lparr>collected = [], reached_cutoff = False, start = 25\<rparr> [(0, 25)]
       = (Inr \<lparr>collected = [a3], reached_cutoff = False, start = 25\<rparr>, [(0, 25), (25, 25)])
   \<and> feed ctx0 0 0 (page_size ctx0) = Some [a1, a2, a3]
   \<and> int (length [a1, a2, a3]) < page_size ctx0
   \<and> snd (paginate ctx0 max_pages pag_init []) = [(0, 25)]"
proof -
  note inst = bounded_pagination [of ctx_two "[]"]
  note inst0 = bounded_pagination [of ctx0 "[]"]
  have p0: "feed ctx_two (length ([] :: (int \<times> int) list)) (start pag_init) (page_size ctx_two)
              = Some (replicate 25 a1)"
    by (simp add: ctx_two_def ctx0_def two_pages_def pag_init_def)
  have s0: "scan_page ctx_two (replicate 25 a1) (collected pag_init, reached_cutoff pag_init)
              = ([], False)"
    by (simp add: scan_seen_page pag_init_def)
  have ne0: "replicate 25 a1 \<noteq> []" by simp
  from inst [THEN conjunct2, THEN conjunct1, rule_format, of "[]" pag_init "replicate 25 a1" "[]" False 19]
    p0 s0 ne0
  have adv: "paginate ctx_two (Suc 19) pag_init []
       = paginate ctx_two 19 \<lparr>collected = [], reached_cutoff = False, start = 25\<rparr> [(0, 25)]"
    by (simp add: ctx_two_def ctx0_def pag_init_def del: paginate.simps)
  let ?s = "\<lparr>collected = [], reached_cutoff = False, start = 25\<rparr>"
  have p1: "feed ctx_two (length [(0 :: int, 25 :: int)]) (start ?s) (page_size ctx_two) = Some [a3]"
    by (simp add: ctx_two_def ctx0_def two_pages_def)
  have s1: "scan_page ctx_two [a3] (collected ?s, reached_cutoff ?s) = ([a3], False)"
    by (simp add: fixture_defs stage_defs)
  from inst [THEN conjunct2, THEN conjunct1, rule_format, of "[(0, 25)]" ?s "[a3]" "[a3]" False 18]
    p1 s1
  have stop: "paginate ctx_two (Suc 18) ?s [(0, 25)]
       = (Inr \<lparr>collected = [a3], reached_cutoff = False, start = 25\<rparr>, [(0, 25), (25, 25)])"
    by (simp add: ctx_two_def ctx0_def del: paginate.simps)
  have "paginate ctx_two max_pages pag_init [] = paginate ctx_two (Suc 19) pag_init []"
    by (simp add: max_pages_def)
  also note adv
  also have "paginate ctx_two 19 ?s [(0, 25)] = paginate ctx_two (Suc 18) ?s [(0, 25)]"
    by simp
  also note stop
  finally have all: "snd (paginate ctx_two max_pages pag_init []) = [(0, 25), (25, 25)]"
    by simp
  from inst [THEN conjunct1] have le: "length (snd (paginate ctx_two max_pages pag_init [])) \<le> 20"
    by auto
  have f0: "feed ctx0 0 0 (page_size ctx0) = Some [a1, a2, a3]"
    by (simp add: ctx0_def one_page_def)
  have l0: "int (length [a1, a2, a3]) < page_size ctx0"
    by (simp add: ctx0_def)
  from inst0 [THEN conjunct2, THEN conjunct2, rule_format, of "[a1, a2, a3]"] f0 l0
  have one: "snd (paginate ctx0 max_pages pag_init []) = [(0, 25)]"
    by (simp add: ctx0_def)
  from all le adv stop f0 l0 one show ?thesis
    by - (intro conjI; assumption)
qed

subsection \<open>The stages of a run\<close>

lemma notify_frame:
  "state_files (fst (notify st E its w)) = state_files w"
  "fetch_calls (fst (notify st E its w)) = fetch_calls w"
  by (simp_all add: notify_def say_def Let_def split: mail_result.splits)

lemma commit_seen_frame:
  "fetch_calls (commit_seen st E seen its a b w) = fetch_calls w"
  "flag_files (commit_seen st E seen its a b w) = flag_files w"
  "SENT_EMAIL (commit_seen st E seen its a b w) = SENT_EMAIL w"
  "outbox (commit_seen st E seen its a b w) = outbox w"
  by (simp_all add: commit_seen_def say_def)

lemma commit_seen_store:
  "state_files (commit_seen st E seen its a b w) =
     (if cfg_unique_only st \<and> cfg_state_path st \<noteq> [] \<and> its \<noteq> [] \<and> (a \<or> b) \<and> state_write_ok E
      then (state_files w)(cfg_state_path st \<mapsto> DocIds (sorted_list_of_set (add_ids its seen)))
      else state_files w)"
  by (auto simp: commit_seen_def say_def)

lemma sync_window_seen:
  "sync_window st E w = Inr C \<Longrightarrow>
   seen_ids C = load_seen (cfg_unique_only st) (cfg_state_path st) (state_files w)
   \<and> want_new C = want_new_of (cfg_max_results st)
   \<and> page_size C = page_size_of (want_new_of (cfg_max_results st))
   \<and> feed C = remote_feed E \<and> fromisoformat C = iso_parser E
   \<and> unique_only C = cfg_unique_only st"
  by (auto simp: sync_window_def split: sum.splits)

text \<open>A run that returns normally, stage by stage.\<close>

lemma run_returns:
  assumes "run st E w = (w', Inr rep)"
  obtains C acc calls w2 where
    "sync_window st E w = Inr C"
    "select_items C (cfg_fallback_when_empty st) (fetch_calls w) = (Inr acc, calls)"
    "outputs_ok E"
    "items rep = map (augment E) acc"
    "site_generated rep = (cfg_site_wanted st \<and> generate_site_ok E)"
    "notify st E (items rep)
       (if cfg_site_wanted st \<and> \<not> generate_site_ok E
        then say SiteFailed (w\<lparr>fetch_calls := calls\<rparr>) else w\<lparr>fetch_calls := calls\<rparr>)
     = (w2, email_sent rep)"
    "w' = commit_seen st E (seen_ids C) (items rep) (site_generated rep) (email_sent rep) w2"
    "state_files w2 = state_files w" "fetch_calls w2 = calls"
proof -
  from assms obtain C where C: "sync_window st E w = Inr C"
    by (auto simp: run_def split: sum.splits)
  from assms C obtain acc calls
    where sel: "select_items C (cfg_fallback_when_empty st) (fetch_calls w) = (Inr acc, calls)"
    by (auto simp: run_def split: sum.splits prod.splits)
  from assms C sel have ok: "outputs_ok E"
    by (auto simp: run_def split: if_splits)
  let ?w1 = "if cfg_site_wanted st \<and> \<not> generate_site_ok E
        then say SiteFailed (w\<lparr>fetch_calls := calls\<rparr>) else w\<lparr>fetch_calls := calls\<rparr>"
  obtain w2 m where n: "notify st E (map (augment E) acc) ?w1 = (w2, m)"
    by (cases "notify st E (map (augment E) acc) ?w1")
  from assms C sel ok n
  have rep: "rep = \<lparr>items = map (augment E) acc,
                    site_generated = (cfg_site_wanted st \<and> generate_site_ok E), email_sent = m\<rparr>"
    and w': "w' = commit_seen st E (seen_ids C) (map (augment E) acc)
                   (cfg_site_wanted st \<and> generate_site_ok E) m w2"
    by (auto simp: run_def Let_def)
  have "state_files w2 = state_files ?w1" "fetch_calls w2 = fetch_calls ?w1"
    using notify_frame [of st E "map (augment E) acc" ?w1] n by simp_all
  then have fr: "state_files w2 = state_files w" "fetch_calls w2 = calls"
    by (simp_all add: say_def)
  from that [OF C sel ok] rep w' n fr show ?thesis by simp
qed

lemma run_raises:
  "run st E w = (w', Inl e) \<Longrightarrow> state_files w' = state_files w"
  by (auto simp: run_def Let_def split: sum.splits prod.splits if_splits)

lemma run_store:
  assumes "run st E w = (w', Inr rep)"
  shows "state_files w' =
     (if cfg_unique_only st \<and> cfg_state_path st \<noteq> [] \<and> items rep \<noteq> []
         \<and> (site_generated rep \<or> email_sent rep) \<and> state_write_ok E
      then (state_files w)(cfg_state_path st \<mapsto>
             DocIds (sorted_list_of_set
               (add_ids (items rep) (load_seen True (cfg_state_path st) (state_files w)))))
      else state_files w)"
proof -
  from assms obtain C acc calls w2 where
    C: "sync_window st E w = Inr C"
    and w': "w' = commit_seen st E (seen_ids C) (items rep) (site_generated rep) (email_sent rep) w2"
    and fr: "state_files w2 = state_files w"
    by (rule run_returns)
  from sync_window_seen [OF C]
  have "seen_ids C = load_seen (cfg_unique_only st) (cfg_state_path st) (state_files w)" by simp
  with w' fr show ?thesis by (auto simp: commit_seen_store)
qed

subsection \<open>C1: outcome-gated commit\<close>

text \<open>
  Claim C1. If a run ends with neither the site generated nor a mail sent, the files of
  the seen-set store are after the run what they were before it, also when items were
  fetched. The same holds when \<^verbatim>\<open>unique_only\<close> is disabled, when the run fetched no item,
  and when the run is ended by an exception.
\<close>

theorem commit_gating:
  "run st E w = (w', r) \<Longrightarrow>
     (\<forall>rep. r = Inr rep \<and> \<not> site_generated rep \<and> \<not> email_sent rep
        \<longrightarrow> state_files w' = state_files w)
   \<and> (\<not> cfg_unique_only st \<longrightarrow> state_files w' = state_files w)
   \<and> (\<forall>rep. r = Inr rep \<and> items rep = [] \<longrightarrow> state_files w' = state_files w)
   \<and> (\<forall>e. r = Inl e \<longrightarrow> state_files w' = state_files w)"
proof -
  assume run: "run st E w = (w', r)"
  show ?thesis
  proof (cases r)
    case (Inl e)
    with run run_raises show ?thesis by blast
  next
    case (Inr rep)
    with run run_store [of st E w w' rep] show ?thesis by simp
  qed
qed

text \<open>
  Site generation and the mail transport both fail after \<open>a3\<close> was fetched: the store is
  untouched. Deduplication disabled, or an empty feed, with the site generated: untouched
  as well.
\<close>

theorem commit_gating_witness:
  "run st_both env_failing w0
     = (w0\<lparr>fetch_calls := [(0, 25)], console := [SiteFailed, EmailFailed, SeenNotWritten]\<rparr>,
        Inr \<lparr>items = [a3], site_generated = False, email_sent = False\<rparr>)
   \<and> state_files (fst (run st_both env_failing w0)) = state_files w0
   \<and> snd (run (st_site\<lparr>cfg_unique_only := False\<rparr>) env0 w0)
       = Inr \<lparr>items = [a1, a2, a3], site_generated = True, email_sent = False\<rparr>
   \<and> state_files (fst (run (st_site\<lparr>cfg_unique_only := False\<rparr>) env0 w0)) = state_files w0
   \<and> snd (run st_site (env0\<lparr>remote_feed := one_page []\<rparr>) w0)
       = Inr \<lparr>items = [], site_generated = True, email_sent = False\<rparr>
   \<and> state_files (fst (run st_site (env0\<lparr>remote_feed := one_page []\<rparr>) w0)) = state_files w0"
proof -
  have r1: "run st_both env_failing w0
     = (w0\<lparr>fetch_calls := [(0, 25)], console := [SiteFailed, EmailFailed, SeenNotWritten]\<rparr>,
        Inr \<lparr>items = [a3], site_generated = False, email_sent = False\<rparr>)"
    by (simp add: fixture_defs stage_defs paginate_numeral)
  have r2: "snd (run (st_site\<lparr>cfg_unique_only := False\<rparr>) env0 w0)
       = Inr \<lparr>items = [a1, a2, a3], site_generated = True, email_sent = False\<rparr>"
    by (simp add: fixture_defs stage_defs paginate_numeral)
  have r3: "snd (run st_site (env0\<lparr>remote_feed := one_page []\<rparr>) w0)
       = Inr \<lparr>items = [], site_generated = True, email_sent = False\<rparr>"
    by (simp add: fixture_defs stage_defs paginate_numeral)
  have u: "\<not> cfg_unique_only (st_site\<lparr>cfg_unique_only := False\<rparr>)" by simp
  from commit_gating [OF r1]
  have s1: "state_files (fst (run st_both env_failing w0)) = state_files w0"
    by (simp add: r1)
  from commit_gating [OF surjective_pairing, of "st_site\<lparr>cfg_unique_only := False\<rparr>" env0 w0] u
  have s2: "state_files (fst (run (st_site\<lparr>cfg_unique_only := False\<rparr>) env0 w0)) = state_files w0"
    by blast
  from commit_gating [OF surjective_pairing, of st_site "env0\<lparr>remote_feed := one_page []\<rparr>" w0] r3
  have s3: "state_files (fst (run st_site (env0\<lparr>remote_feed := one_page []\<rparr>) w0)) = state_files w0"
    by simp
  from r1 s1 r2 s2 r3 s3 show ?thesis by - (intro conjI; assumption)
qed

subsection \<open>C6: monotonic seen set\<close>

lemma add_ids_eq:
  "add_ids its seen = seen \<union> {aid. aid \<noteq> [] \<and> (\<exists>it\<in>set its. item_id it = Some aid)}"
  by (induction its arbitrary: seen) (auto split: option.splits)

lemma finite_load_seen: "finite (load_seen uo path files)"
  by (simp add: load_seen_def split: option.splits store_doc.splits)

lemma finite_add_ids: "finite seen \<Longrightarrow> finite (add_ids its seen)"
  by (induction its arbitrary: seen) (auto split: option.splits)

lemma load_seen_written:
  "path \<noteq> [] \<Longrightarrow> load_seen True path (files(path \<mapsto> DocIds ids)) = set ids"
  by (simp add: load_seen_def)



subsection \<open>C8: fallback fetch\<close>

text \<open>What a run reports of the selection: the calls made, and the items or the error.\<close>

lemma run_select:
  assumes C: "sync_window st E w = Inr C"
    and sel: "select_items C (cfg_fallback_when_empty st) (fetch_calls w) = (res, calls)"
  shows "fetch_calls (fst (run st E w)) = calls"
    and "\<And>e. res = Inl e \<Longrightarrow> snd (run st E w) = Inl e"
    and "\<And>acc. res = Inr acc \<Longrightarrow> \<not> outputs_ok E \<Longrightarrow> snd (run st E w) = Inl OutputError"
    and "\<And>acc. res = Inr acc \<Longrightarrow> outputs_ok E \<Longrightarrow>
           \<exists>rep. snd (run st E w) = Inr rep \<and> items rep = map (augment E) acc"
proof -
  let ?w1 = "if cfg_site_wanted st \<and> \<not> generate_site_ok E
        then say SiteFailed (w\<lparr>fetch_calls := calls\<rparr>) else w\<lparr>fetch_calls := calls\<rparr>"
  have n: "fetch_calls (fst (notify st E its ?w1)) = calls" for its
    by (simp add: notify_frame say_def)
  show "fetch_calls (fst (run st E w)) = calls"
  proof (cases res)
    case (Inl e)
    with C sel show ?thesis by (simp add: run_def)
  next
    case (Inr acc)
    show ?thesis
    proof (cases "outputs_ok E")
      case False
      with C sel Inr show ?thesis by (simp add: run_def)
    next
      case True
      obtain w2 m where nn: "notify st E (map (augment E) acc) ?w1 = (w2, m)"
        by (cases "notify st E (map (augment E) acc) ?w1")
      with n [of "map (augment E) acc"] have "fetch_calls w2 = calls" by simp
      with C sel Inr True nn show ?thesis
        by (simp add: run_def Let_def commit_seen_frame)
    qed
  qed
  show "\<And>e. res = Inl e \<Longrightarrow> snd (run st E w) = Inl e"
    using C sel by (simp add: run_def)
  show "\<And>acc. res = Inr acc \<Longrightarrow> \<not> outputs_ok E \<Longrightarrow> snd (run st E w) = Inl OutputError"
    using C sel by (simp add: run_def)
  show "\<And>acc. res = Inr acc \<Longrightarrow> outputs_ok E \<Longrightarrow>
           \<exists>rep. snd (run st E w) = Inr rep \<and> items rep = map (augment E) acc"
    using C sel by (simp add: run_def Let_def split: prod.splits)
qed

text \<open>
  Claim C8. Let the paginator return the accumulated list \<open>collected p\<close> after the calls
  \<open>calls1\<close>, and let the later steps raise nothing. If the list is empty and the fallback
  flag is set, the run makes exactly one more call, with \<^verbatim>\<open>start=0\<close> and
  \<^verbatim>\<open>max_results=want_new\<close>, and the items it returns are the run's items as they come
  (handed to the enrichment), with no cutoff and no dedup applied; if that call raises,
  the run ends with the error. Otherwise the run makes no further call and its items are
  the accumulated list; so an empty list stays empty when the flag is off.
\<close>

theorem fallback_fetch_verbatim:
  "sync_window st E w = Inr C \<Longrightarrow>
   paginate C max_pages pag_init (fetch_calls w) = (Inr p, calls1) \<Longrightarrow> outputs_ok E \<Longrightarrow>
     (collected p = [] \<and> cfg_fallback_when_empty st \<longrightarrow>
        fetch_calls (fst (run st E w)) = calls1 @ [(0, want_new_of (cfg_max_results st))]
        \<and> (\<forall>xs. remote_feed E (length calls1) 0 (want_new_of (cfg_max_results st)) = Some xs
              \<longrightarrow> (\<exists>rep. snd (run st E w) = Inr rep \<and> items rep = map (augment E) xs))
        \<and> (remote_feed E (length calls1) 0 (want_new_of (cfg_max_results st)) = None
              \<longrightarrow> snd (run st E w) = Inl FeedError))
   \<and> (\<not> (collected p = [] \<and> cfg_fallback_when_empty st) \<longrightarrow>
        fetch_calls (fst (run st E w)) = calls1
        \<and> (\<exists>rep. snd (run st E w) = Inr rep \<and> items rep = map (augment E) (collected p)))"
proof -
  assume C: "sync_window st E w = Inr C"
    and pg: "paginate C max_pages pag_init (fetch_calls w) = (Inr p, calls1)"
    and ok: "outputs_ok E"
  from sync_window_seen [OF C]
  have feed: "feed C = remote_feed E" and wn: "want_new C = want_new_of (cfg_max_results st)"
    by simp_all
  let ?fb = "cfg_fallback_when_empty st"
  let ?wn = "want_new_of (cfg_max_results st)"
  show ?thesis
  proof (cases "collected p = [] \<and> ?fb")
    case False
    with pg have sel: "select_items C ?fb (fetch_calls w) = (Inr (collected p), calls1)"
      by (auto simp: select_items_def fallback_fetch_def)
    from run_select(1) [OF C sel] run_select(4) [OF C sel refl ok] False
    show ?thesis by simp
  next
    case True
    show ?thesis
    proof (cases "remote_feed E (length calls1) 0 ?wn")
      case None
      with pg True feed wn
      have sel: "select_items C ?fb (fetch_calls w) = (Inl FeedError, calls1 @ [(0, ?wn)])"
        by (simp add: select_items_def fallback_fetch_def)
      from run_select(1) [OF C sel] run_select(2) [OF C sel refl] True None
      show ?thesis by simp
    next
      case (Some xs)
      with pg True feed wn
      have sel: "select_items C ?fb (fetch_calls w) = (Inr xs, calls1 @ [(0, ?wn)])"
        by (simp add: select_items_def fallback_fetch_def)
      from run_select(1) [OF C sel] run_select(4) [OF C sel refl ok] True Some
      show ?thesis by simp
    qed
  qed
qed

text \<open>
  A feed that holds only seen items: with the flag set the run makes the call \<open>(0, 10)\<close>
  and returns the seen items; with the flag off it makes no further call and returns
  nothing.
\<close>

theorem fallback_fetch_verbatim_witness:
  "sync_window (st0\<lparr>cfg_fallback_when_empty := True\<rparr>) (env0\<lparr>remote_feed := one_page [a1, a2]\<rparr>) w0
     = Inr (ctx0\<lparr>feed := one_page [a1, a2]\<rparr>)
   \<and> paginate (ctx0\<lparr>feed := one_page [a1, a2]\<rparr>) max_pages pag_init (fetch_calls w0)
       = (Inr \<lparr>collected = [], reached_cutoff = False, start = 0\<rparr>, [(0, 25)])
   \<and> fetch_calls (fst (run (st0\<lparr>cfg_fallback_when_empty := True\<rparr>)
                          (env0\<lparr>remote_feed := one_page [a1, a2]\<rparr>) w0))
       = [(0, 25), (0, 10)]
   \<and> snd (run (st0\<lparr>cfg_fallback_when_empty := True\<rparr>) (env0\<lparr>remote_feed := one_page [a1, a2]\<rparr>) w0)
       = Inr \<lparr>items = [a1, a2], site_generated = False, email_sent = False\<rparr>
   \<and> fetch_calls (fst (run st0 (env0\<lparr>remote_feed := one_page [a1, a2]\<rparr>) w0)) = [(0, 25)]
   \<and> snd (run st0 (env0\<lparr>remote_feed := one_page [a1, a2]\<rparr>) w0)
       = Inr \<lparr>items = [], site_generated = False, email_sent = False\<rparr>"
proof -
  let ?st = "st0\<lparr>cfg_fallback_when_empty := True\<rparr>"
  let ?E = "env0\<lparr>remote_feed := one_page [a1, a2]\<rparr>"
  let ?C = "ctx0\<lparr>feed := one_page [a1, a2]\<rparr>"
  let ?p = "\<lparr>collected = [], reached_cutoff = False, start = 0\<rparr>"
  have C: "sync_window ?st ?E w0 = Inr ?C"
    by (simp add: fixture_defs stage_defs)
  have C0: "sync_window st0 ?E w0 = Inr ?C"
    by (simp add: fixture_defs stage_defs)
  have pg: "paginate ?C max_pages pag_init (fetch_calls w0) = (Inr ?p, [(0, 25)])"
    by (simp add: fixture_defs stage_defs paginate_numeral)
  have ok: "outputs_ok ?E" by (simp add: env0_def)
  have r1: "snd (run ?st ?E w0) = Inr \<lparr>items = [a1, a2], site_generated = False, email_sent = False\<rparr>"
    by (simp add: fixture_defs stage_defs paginate_numeral)
  have r0: "snd (run st0 ?E w0) = Inr \<lparr>items = [], site_generated = False, email_sent = False\<rparr>"
    by (simp add: fixture_defs stage_defs paginate_numeral)
  have on: "collected ?p = [] \<and> cfg_fallback_when_empty ?st" by (simp add: st0_def)
  have off: "\<not> (collected ?p = [] \<and> cfg_fallback_when_empty st0)" by (simp add: st0_def)
  from fallback_fetch_verbatim [OF C pg ok, THEN conjunct1, rule_format, OF on, THEN conjunct1]
  have c1: "fetch_calls (fst (run ?st ?E w0)) = [(0, 25), (0, 10)]"
    by (simp add: st0_def want_new_of_def)
  from fallback_fetch_verbatim [OF C0 pg ok, THEN conjunct2, rule_format, OF off, THEN conjunct1]
  have c0: "fetch_calls (fst (run st0 ?E w0)) = [(0, 25)]" .
  from C pg c1 r1 c0 r0 show ?thesis by - (intro conjI; assumption)
qed

subsection \<open>C10: items without an identifier\<close>

lemma scan_page_collects:
  "\<not> before_cutoff C it \<Longrightarrow> \<not> already_seen C it \<Longrightarrow>
   \<exists>ys. fst (scan_page C (it # rest) (acc, r)) = acc @ it # ys"
proof (cases "want_new C \<le> int (length (acc @ [it]))")
  case True
  assume "\<not> before_cutoff C it" "\<not> already_seen C it"
  with True show ?thesis by simp
next
  case False
  assume h: "\<not> before_cutoff C it" "\<not> already_seen C it"
  from scan_page_extends [of C rest "acc @ [it]" r] obtain ys
    where "fst (scan_page C rest (acc @ [it], r)) = (acc @ [it]) @ ys" by blast
  with False h show ?thesis by simp
qed

lemma run_added_ids:
  assumes "run st E w = (w', Inr rep)"
  shows "load_seen True (cfg_state_path st) (state_files w')
           - load_seen True (cfg_state_path st) (state_files w)
         \<subseteq> {aid. aid \<noteq> [] \<and> (\<exists>x\<in>set (items rep). item_id x = Some aid)}"
proof (cases "cfg_unique_only st \<and> cfg_state_path st \<noteq> [] \<and> items rep \<noteq> []
         \<and> (site_generated rep \<or> email_sent rep) \<and> state_write_ok E")
  case False
  with run_store [OF assms] show ?thesis by simp
next
  case True
  let ?all = "add_ids (items rep) (load_seen True (cfg_state_path st) (state_files w))"
  have "finite ?all" by (simp add: finite_add_ids finite_load_seen)
  then have "set (sorted_list_of_set ?all) = ?all" by simp
  with True run_store [OF assms]
  have "load_seen True (cfg_state_path st) (state_files w') = ?all"
    by (simp add: load_seen_written)
  then show ?thesis by (auto simp: add_ids_eq)
qed

text \<open>
  Claim C10. An item whose \<^verbatim>\<open>id\<close> is missing or empty is never taken for seen, whatever
  the seen set holds and also with \<^verbatim>\<open>unique_only\<close> enabled; when the scan comes to it and
  the cutoff does not exclude it, it is appended to the accumulated list. The committer's
  loop passes over it without adding anything, and whatever a run adds to the membership
  of the store is a non-empty identifier of one of its items. Since the first part holds
  for every seen set, such an item is collected again by every later run.
\<close>

theorem idless_items_bypass:
  "(item_id it = None \<or> item_id it = Some [] \<longrightarrow>
       \<not> already_seen C it
     \<and> (\<not> before_cutoff C it
          \<longrightarrow> (\<exists>ys. fst (scan_page C (it # rest) (acc, r)) = acc @ it # ys))
     \<and> add_ids (it # its) seen = add_ids its seen)
   \<and> (run st E w = (w', Inr rep) \<longrightarrow>
        load_seen True (cfg_state_path st) (state_files w')
          - load_seen True (cfg_state_path st) (state_files w)
        \<subseteq> {aid. aid \<noteq> [] \<and> (\<exists>x\<in>set (items rep). item_id x = Some aid)})"
proof (intro conjI impI)
  assume idless: "item_id it = None \<or> item_id it = Some []"
  then show unseen: "\<not> already_seen C it"
    by (auto simp: already_seen_def)
  from idless show "add_ids (it # its) seen = add_ids its seen"
    by auto
  assume "\<not> before_cutoff C it"
  with unseen show "\<exists>ys. fst (scan_page C (it # rest) (acc, r)) = acc @ it # ys"
    using scan_page_collects by blast
next
  assume "run st E w = (w', Inr rep)"
  then show "load_seen True (cfg_state_path st) (state_files w')
          - load_seen True (cfg_state_path st) (state_files w)
        \<subseteq> {aid. aid \<noteq> [] \<and> (\<exists>x\<in>set (items rep). item_id x = Some aid)}"
    by (rule run_added_ids)
qed

text \<open>
  Two runs in a row over a feed whose page is an item without identifier followed by
  \<open>a3\<close>: the first collects both and stores \<open>a3\<close> only, the second collects the item
  without identifier again.
\<close>

theorem idless_items_bypass_witness:
  "item_id anonymous = None
   \<and> unique_only ctx0
   \<and> \<not> already_seen ctx0 anonymous
   \<and> \<not> before_cutoff ctx0 anonymous
   \<and> fst (scan_page ctx0 [anonymous, a3] ([], False)) = [anonymous, a3]
   \<and> add_ids [anonymous, a3] {''a1'', ''a2''} = add_ids [a3] {''a1'', ''a2''}
   \<and> run st_site env_anon w0
       = (w0\<lparr>fetch_calls := [(0, 25)], console := [SeenSaved],
             state_files := [''.state/seen.json'' \<mapsto> DocIds [''a1'', ''a2'', ''a3'']]\<rparr>,
          Inr \<lparr>items = [anonymous, a3], site_generated = True, email_sent = False\<rparr>)
   \<and> load_seen True (cfg_state_path st_site) (state_files (fst (run st_site env_anon w0)))
         - load_seen True (cfg_state_path st_site) (state_files w0)
       \<subseteq> {''a3''}
   \<and> snd (run st_site env_anon (fresh_process (fst (run st_site env_anon w0))))
       = Inr \<lparr>items = [anonymous], site_generated = True, email_sent = False\<rparr>"
proof -
  let ?rep = "\<lparr>items = [anonymous, a3], site_generated = True, email_sent = False\<rparr>"
  have anon: "item_id anonymous = None" by (simp add: anonymous_def)
  have uo: "unique_only ctx0" by (simp add: ctx0_def)
  have fresh: "\<not> before_cutoff ctx0 anonymous" by (simp add: ctx0_def before_cutoff_def)
  have r1: "run st_site env_anon w0
       = (w0\<lparr>fetch_calls := [(0, 25)], console := [SeenSaved],
             state_files := [''.state/seen.json'' \<mapsto> DocIds [''a1'', ''a2'', ''a3'']]\<rparr>,
          Inr ?rep)"
    by (simp add: fixture_defs stage_defs paginate_numeral)
  have r2: "snd (run st_site env_anon (fresh_process (fst (run st_site env_anon w0))))
       = Inr \<lparr>items = [anonymous], site_generated = True, email_sent = False\<rparr>"
    by (simp add: r1) (simp add: fixture_defs stage_defs paginate_numeral)
  have ids: "{aid. aid \<noteq> [] \<and> (\<exists>x\<in>set (items ?rep). item_id x = Some aid)} = {''a3''}"
    by (auto simp: anonymous_def a3_def paper_def)
  have scan: "fst (scan_page ctx0 [anonymous, a3] ([], False)) = [anonymous, a3]"
    by (simp add: fixture_defs stage_defs)
  note inst = idless_items_bypass [of anonymous ctx0 "[a3]" "[]" False "[a3]" "{''a1'', ''a2''}"
      st_site env_anon w0 "fst (run st_site env_anon w0)" ?rep]
  from inst [THEN conjunct1] anon
  have unseen: "\<not> already_seen ctx0 anonymous"
    by blast
  from inst [THEN conjunct1] anon
  have add: "add_ids [anonymous, a3] {''a1'', ''a2''} = add_ids [a3] {''a1'', ''a2''}"
    by blast
  from inst [THEN conjunct2] r1
  have "load_seen True (cfg_state_path st_site) (state_files (fst (run st_site env_anon w0)))
         - load_seen True (cfg_state_path st_site) (state_files w0)
       \<subseteq> {aid. aid \<noteq> [] \<and> (\<exists>x\<in>set (items ?rep). item_id x = Some aid)}"
    by simp
  then have added: "load_seen True (cfg_state_path st_site) (state_files (fst (run st_site env_anon w0)))
         - load_seen True (cfg_state_path st_site) (state_files w0)
       \<subseteq> {''a3''}"
    by (simp only: ids)
  from anon uo unseen fresh scan add r1 added r2 show ?thesis by - (intro conjI; assumption)
qed

subsection \<open>C9: the snapshot stamp\<close>

lemma stamp_at_token:
  "timestamp_token d8 d6 \<Longrightarrow> stamp_at (''arxiv_'' @ d8 @ ''_'' @ d6 @ post) = Some (d8 @ ''_'' @ d6)"
  by (simp add: stamp_at_def timestamp_token_def)

lemma stamp_at_SomeD:
  assumes "stamp_at s = Some g"
  shows "\<exists>d8 d6 post. s = ''arxiv_'' @ d8 @ ''_'' @ d6 @ post \<and> timestamp_token d8 d6
           \<and> g = d8 @ ''_'' @ d6"
proof -
  let ?d8 = "take 8 (drop 6 s)" and ?d6 = "take 6 (drop 15 s)"
  from assms have h: "take 6 s = ''arxiv_''" "length ?d8 = 8" "list_all is_digit ?d8"
    "take 1 (drop 14 s) = ''_''" "length ?d6 = 6" "list_all is_digit ?d6"
    and g: "g = take 15 (drop 6 s)"
    by (auto simp: stamp_at_def split: if_splits)
  have d1: "drop 8 (drop 6 s) = drop 14 s" and d2: "drop 1 (drop 14 s) = drop 15 s"
    and d3: "drop 6 (drop 15 s) = drop 21 s"
    by simp_all
  have "s = take 6 s @ drop 6 s"
    by (rule append_take_drop_id [symmetric])
  also have "drop 6 s = ?d8 @ drop 8 (drop 6 s)"
    by (rule append_take_drop_id [symmetric])
  also have "drop 8 (drop 6 s) = take 1 (drop 14 s) @ drop 1 (drop 14 s)"
    unfolding d1 by (rule append_take_drop_id [symmetric])
  also have "drop 1 (drop 14 s) = ?d6 @ drop 6 (drop 15 s)"
    unfolding d2 by (rule append_take_drop_id [symmetric])
  finally have s: "s = ''arxiv_'' @ ?d8 @ ''_'' @ ?d6 @ drop 21 s"
    unfolding d3 h(1) h(4) .
  have "take 15 (drop 6 s) = take (8 + 7) (drop 6 s)" by simp
  also have "\<dots> = ?d8 @ take 7 (drop 8 (drop 6 s))" by (rule take_add)
  also have "take 7 (drop 8 (drop 6 s)) = take (1 + 6) (drop 14 s)" unfolding d1 by simp
  also have "\<dots> = take 1 (drop 14 s) @ take 6 (drop 1 (drop 14 s))" by (rule take_add)
  finally have "g = ?d8 @ ''_'' @ ?d6" unfolding d2 h(4) g .
  with s h show ?thesis
    unfolding timestamp_token_def by blast
qed

lemma stamp_at_Nil: "stamp_at [] = None"
  by (simp add: stamp_at_def)

lemma contains_token_split:
  "contains_token s \<longleftrightarrow> (\<exists>pre post. s = pre @ post \<and> stamp_at post \<noteq> None)"
proof
  assume "contains_token s"
  then obtain pre d8 d6 post where "s = pre @ ''arxiv_'' @ d8 @ ''_'' @ d6 @ post"
    and "timestamp_token d8 d6"
    unfolding contains_token_def by blast
  with stamp_at_token [of d8 d6 post] show "\<exists>pre post. s = pre @ post \<and> stamp_at post \<noteq> None"
    by (intro exI [of _ pre] exI [of _ "''arxiv_'' @ d8 @ ''_'' @ d6 @ post"]) simp
next
  assume "\<exists>pre post. s = pre @ post \<and> stamp_at post \<noteq> None"
  then obtain pre post g where "s = pre @ post" "stamp_at post = Some g" by auto
  with stamp_at_SomeD [of post g] show "contains_token s"
    unfolding contains_token_def by blast
qed

lemma re_search_None: "re_search s = None \<longleftrightarrow> \<not> contains_token s"
proof (induction s)
  case Nil
  then show ?case by (simp add: contains_token_split stamp_at_Nil)
next
  case (Cons c cs)
  have "contains_token (c # cs) \<longleftrightarrow> stamp_at (c # cs) \<noteq> None \<or> contains_token cs"
  proof
    assume "contains_token (c # cs)"
    then obtain pre post where sp: "c # cs = pre @ post" and m: "stamp_at post \<noteq> None"
      unfolding contains_token_split by blast
    show "stamp_at (c # cs) \<noteq> None \<or> contains_token cs"
    proof (cases pre)
      case Nil
      with sp m show ?thesis by simp
    next
      case (Cons a pre')
      with sp have "cs = pre' @ post" by simp
      with m show ?thesis unfolding contains_token_split by blast
    qed
  next
    assume "stamp_at (c # cs) \<noteq> None \<or> contains_token cs"
    then show "contains_token (c # cs)"
    proof
      assume "stamp_at (c # cs) \<noteq> None"
      then have "c # cs = [] @ (c # cs) \<and> stamp_at (c # cs) \<noteq> None" by simp
      then show ?thesis unfolding contains_token_split by blast
    next
      assume "contains_token cs"
      then obtain pre post where "cs = pre @ post" "stamp_at post \<noteq> None"
        unfolding contains_token_split by blast
      then have "c # cs = (c # pre) @ post \<and> stamp_at post \<noteq> None" by simp
      then show ?thesis unfolding contains_token_split by blast
    qed
  qed
  with Cons.IH show ?case by (auto split: option.splits)
qed

lemma re_search_leftmost:
  "re_search s = Some g \<Longrightarrow>
   \<exists>pre post. s = pre @ post \<and> stamp_at post = Some g
     \<and> (\<forall>pre' post'. s = pre' @ post' \<and> stamp_at post' \<noteq> None \<longrightarrow> length pre \<le> length pre')"
proof (induction s)
  case Nil
  then show ?case by simp
next
  case (Cons c cs)
  show ?case
  proof (cases "stamp_at (c # cs)")
    case (Some g')
    with Cons.prems have "g' = g" by simp
    with Some have "c # cs = [] @ (c # cs) \<and> stamp_at (c # cs) = Some g
      \<and> (\<forall>pre' post'. c # cs = pre' @ post' \<and> stamp_at post' \<noteq> None \<longrightarrow> length ([] :: string) \<le> length pre')"
      by simp
    then show ?thesis by blast
  next
    case None
    with Cons.prems have "re_search cs = Some g" by simp
    from Cons.IH [OF this] obtain pre post where sp: "cs = pre @ post" and m: "stamp_at post = Some g"
      and least: "\<forall>pre' post'. cs = pre' @ post' \<and> stamp_at post' \<noteq> None \<longrightarrow> length pre \<le> length pre'"
      by blast
    have "\<forall>pre' post'. c # cs = pre' @ post' \<and> stamp_at post' \<noteq> None \<longrightarrow> length (c # pre) \<le> length pre'"
    proof (intro allI impI)
      fix pre' post'
      assume h: "c # cs = pre' @ post' \<and> stamp_at post' \<noteq> None"
      show "length (c # pre) \<le> length pre'"
      proof (cases pre')
        case Nil
        with h None show ?thesis by simp
      next
        case (Cons a p)
        with h have "cs = p @ post' \<and> stamp_at post' \<noteq> None" by simp
        with least have "length pre \<le> length p" by blast
        with Cons show ?thesis by simp
      qed
    qed
    with sp m have "c # cs = (c # pre) @ post \<and> stamp_at post = Some g
      \<and> (\<forall>pre' post'. c # cs = pre' @ post' \<and> stamp_at post' \<noteq> None \<longrightarrow> length (c # pre) \<le> length pre')"
      by simp
    then show ?thesis by blast
  qed
qed

lemma snapshot_stamp_eq:
  "snapshot_stamp today path = (case re_search (basename path) of Some g \<Rightarrow> g | None \<Rightarrow> today)"
  by (simp add: snapshot_stamp_def extract_stamp_from_path_def split: option.splits)

text \<open>
  Claim C9, as the code has it. If the base name of the output file contains a token
  \<^verbatim>\<open>arxiv_YYYYMMDD_HHMMSS\<close>, the stamp is the part \<^verbatim>\<open>YYYYMMDD_HHMMSS\<close> of the leftmost
  one. If it contains none, the stamp is the current date as \<^verbatim>\<open>time.strftime("%Y%m%d")\<close>
  gives it (the docstring of \<^verbatim>\<open>_extract_stamp_from_path\<close> says so). The extraction
  never raises, so the base-name fallback that \<^verbatim>\<open>run\<close> keeps for that case is never
  taken.
\<close>

theorem snapshot_stamp_derivation:
  "(contains_token (basename path) \<longrightarrow>
      (\<exists>pre d8 d6 post.
          basename path = pre @ ''arxiv_'' @ d8 @ ''_'' @ d6 @ post \<and> timestamp_token d8 d6
        \<and> snapshot_stamp today path = d8 @ ''_'' @ d6
        \<and> (\<forall>pre' d8' d6' post'.
              basename path = pre' @ ''arxiv_'' @ d8' @ ''_'' @ d6' @ post' \<and> timestamp_token d8' d6'
              \<longrightarrow> length pre \<le> length pre')))
   \<and> (\<not> contains_token (basename path) \<longrightarrow> snapshot_stamp today path = today)
   \<and> (\<exists>s. extract_stamp_from_path today path = Inr s)"
proof (intro conjI impI)
  assume "contains_token (basename path)"
  then obtain g where g: "re_search (basename path) = Some g"
    using re_search_None [of "basename path"] by (cases "re_search (basename path)") auto
  from re_search_leftmost [OF g] obtain pre rest where sp: "basename path = pre @ rest"
    and m: "stamp_at rest = Some g"
    and least: "\<forall>pre' post'. basename path = pre' @ post' \<and> stamp_at post' \<noteq> None
                  \<longrightarrow> length pre \<le> length pre'"
    by blast
  from stamp_at_SomeD [OF m] obtain d8 d6 post
    where rest: "rest = ''arxiv_'' @ d8 @ ''_'' @ d6 @ post" and tok: "timestamp_token d8 d6"
      and gg: "g = d8 @ ''_'' @ d6"
    by blast
  have first: "\<forall>pre' d8' d6' post'.
              basename path = pre' @ ''arxiv_'' @ d8' @ ''_'' @ d6' @ post' \<and> timestamp_token d8' d6'
              \<longrightarrow> length pre \<le> length pre'"
  proof (intro allI impI)
    fix pre' d8' d6' post'
    assume h: "basename path = pre' @ ''arxiv_'' @ d8' @ ''_'' @ d6' @ post' \<and> timestamp_token d8' d6'"
    then have "stamp_at (''arxiv_'' @ d8' @ ''_'' @ d6' @ post') \<noteq> None"
      using stamp_at_token [of d8' d6' post'] by simp
    with h least show "length pre \<le> length pre'" by blast
  qed
  from g gg have "snapshot_stamp today path = d8 @ ''_'' @ d6"
    by (simp add: snapshot_stamp_eq)
  with sp rest tok first
  show "\<exists>pre d8 d6 post.
          basename path = pre @ ''arxiv_'' @ d8 @ ''_'' @ d6 @ post \<and> timestamp_token d8 d6
        \<and> snapshot_stamp today path = d8 @ ''_'' @ d6
        \<and> (\<forall>pre' d8' d6' post'.
              basename path = pre' @ ''arxiv_'' @ d8' @ ''_'' @ d6' @ post' \<and> timestamp_token d8' d6'
              \<longrightarrow> length pre \<le> length pre')"
    by blast
next
  assume "\<not> contains_token (basename path)"
  then have "re_search (basename path) = None" by (simp add: re_search_None)
  then show "snapshot_stamp today path = today" by (simp add: snapshot_stamp_eq)
next
  show "\<exists>s. extract_stamp_from_path today path = Inr s"
    by (simp add: extract_stamp_from_path_def split: option.splits)
qed

text \<open>A name with the token, and a name without it on 10 January 2024.\<close>

theorem snapshot_stamp_derivation_witness:
  "contains_token (basename ''outputs/arxiv_20240110_080000.json'')
   \<and> basename ''outputs/arxiv_20240110_080000.json'' = ''arxiv_20240110_080000.json''
   \<and> snapshot_stamp ''20240110'' ''outputs/arxiv_20240110_080000.json'' = ''20240110_080000''
   \<and> \<not> contains_token (basename ''outputs/results.json'')
   \<and> snapshot_stamp ''20240110'' ''outputs/results.json'' = ''20240110''"
proof -
  let ?p = "''outputs/arxiv_20240110_080000.json''" and ?q = "''outputs/results.json''"
  have found: "re_search (basename ?p) = Some ''20240110_080000''"
    by (simp add: basename_def stamp_at_def is_digit_def)
  then have c1: "contains_token (basename ?p)"
    using re_search_None [of "basename ?p"] by simp
  have b: "basename ?p = ''arxiv_20240110_080000.json''"
    by (simp add: basename_def)
  have "re_search (basename ?q) = None"
    by (simp add: basename_def stamp_at_def)
  then have c2: "\<not> contains_token (basename ?q)"
    by (simp add: re_search_None)
  note inst1 = snapshot_stamp_derivation [of ?p "''20240110''", THEN conjunct1, rule_format, OF c1]
  note inst2 = snapshot_stamp_derivation [of ?q "''20240110''", THEN conjunct2, THEN conjunct1,
      rule_format, OF c2]
  from inst1 obtain d8 d6 where "snapshot_stamp ''20240110'' ?p = d8 @ ''_'' @ d6"
    by blast
  moreover have "snapshot_stamp ''20240110'' ?p = ''20240110_080000''"
    using found by (simp add: snapshot_stamp_def extract_stamp_from_path_def)
  ultimately have s1: "snapshot_stamp ''20240110'' ?p = ''20240110_080000''" by simp
  from c1 b s1 c2 inst2 show ?thesis by - (intro conjI; assumption)
qed

text \<open>
  For \<^verbatim>\<open>outputs/results.json\<close> the stamp is the date \<^verbatim>\<open>20240110\<close>, not the base name
  \<^verbatim>\<open>results\<close>.
\<close>

theorem snapshot_stamp_basename_counterexample:
  "\<not> contains_token (basename ''outputs/results.json'')
   \<and> snapshot_stamp ''20240110'' ''outputs/results.json'' = ''20240110''
   \<and> fallback_stamp ''outputs/results.json'' = ''results''
   \<and> snapshot_stamp ''20240110'' ''outputs/results.json'' \<noteq> fallback_stamp ''outputs/results.json''"
proof -
  have none: "re_search (basename ''outputs/results.json'') = None"
    by (simp add: basename_def stamp_at_def)
  then have c: "\<not> contains_token (basename ''outputs/results.json'')"
    by (simp add: re_search_None)
  from none have s: "snapshot_stamp ''20240110'' ''outputs/results.json'' = ''20240110''"
    by (simp add: snapshot_stamp_def extract_stamp_from_path_def)
  have f: "fallback_stamp ''outputs/results.json'' = ''results''"
    by (simp add: fallback_stamp_def basename_def)
  from s f have ne: "snapshot_stamp ''20240110'' ''outputs/results.json''
                       \<noteq> fallback_stamp ''outputs/results.json''"
    by simp
  from c s f ne show ?thesis by - (intro conjI; assumption)
qed

subsection \<open>C2: idempotent delivery\<close>

lemma notify_sent:
  assumes "notify st E its w = (w', True)"
  shows "cfg_email_enabled st \<and> \<not> SENT_EMAIL w \<and> flag_dir_ok E \<and> flag_path st E \<notin> flag_files w
         \<and> mail E = Delivered"
    and "outbox w' = outbox w @ [its]"
    and "SENT_EMAIL w'"
    and "flag_files w' = (if touch_ok E then insert (flag_path st E) (flag_files w) else flag_files w)"
  using assms
  by (auto simp: notify_def Let_def say_def split: if_splits mail_result.splits)

lemma notify_skipped:
  "notify st E its w = (w', False) \<Longrightarrow>
   outbox w' = outbox w \<and> flag_files w' = flag_files w \<and> SENT_EMAIL w' = SENT_EMAIL w"
  by (auto simp: notify_def Let_def say_def split: if_splits mail_result.splits)

lemma notify_guard:
  "SENT_EMAIL w \<or> flag_path st E \<in> flag_files w \<Longrightarrow> snd (notify st E its w) = False"
  by (auto simp: notify_def Let_def say_def split: if_splits mail_result.splits)

lemma notify_file_guard:
  "cfg_email_enabled st \<Longrightarrow> \<not> SENT_EMAIL w \<Longrightarrow> flag_dir_ok E \<Longrightarrow>
   flag_path st E \<in> flag_files w \<Longrightarrow>
   notify st E its w = (say (FileGuardSkip (snapshot_stamp (clock_today E) (json_path E))) w, False)"
  by (simp add: notify_def Let_def)

lemma notify_process_guard:
  "cfg_email_enabled st \<Longrightarrow> SENT_EMAIL w \<Longrightarrow> flag_dir_ok E \<Longrightarrow>
   notify st E its w = (say ProcessGuardSkip w, False)"
  by (simp add: notify_def Let_def say_def)

lemma commit_seen_console:
  "set (console w) \<subseteq> set (console (commit_seen st E seen its a b w))"
  by (auto simp: commit_seen_def say_def)

text \<open>The mail step inside a run that returns: the world it starts from and what is kept of it.\<close>

lemma run_mail_step:
  assumes "run st E w = (w', Inr rep)"
  obtains w1 w2 where
    "notify st E (items rep) w1 = (w2, email_sent rep)"
    "outbox w1 = outbox w" "flag_files w1 = flag_files w" "SENT_EMAIL w1 = SENT_EMAIL w"
    "outbox w' = outbox w2" "flag_files w' = flag_files w2" "SENT_EMAIL w' = SENT_EMAIL w2"
    "set (console w2) \<subseteq> set (console w')"
proof -
  from assms obtain C acc calls w2 where
    "sync_window st E w = Inr C"
    "select_items C (cfg_fallback_when_empty st) (fetch_calls w) = (Inr acc, calls)"
    "outputs_ok E"
    "items rep = map (augment E) acc"
    "site_generated rep = (cfg_site_wanted st \<and> generate_site_ok E)"
    and n: "notify st E (items rep)
       (if cfg_site_wanted st \<and> \<not> generate_site_ok E
        then say SiteFailed (w\<lparr>fetch_calls := calls\<rparr>) else w\<lparr>fetch_calls := calls\<rparr>)
     = (w2, email_sent rep)"
    and w': "w' = commit_seen st E (seen_ids C) (items rep) (site_generated rep) (email_sent rep) w2"
    and "state_files w2 = state_files w" "fetch_calls w2 = calls"
    by (rule run_returns)
  let ?w1 = "if cfg_site_wanted st \<and> \<not> generate_site_ok E
        then say SiteFailed (w\<lparr>fetch_calls := calls\<rparr>) else w\<lparr>fetch_calls := calls\<rparr>"
  have "outbox ?w1 = outbox w" "flag_files ?w1 = flag_files w" "SENT_EMAIL ?w1 = SENT_EMAIL w"
    by (simp_all add: say_def)
  moreover from w' have "outbox w' = outbox w2" "flag_files w' = flag_files w2"
    "SENT_EMAIL w' = SENT_EMAIL w2" "set (console w2) \<subseteq> set (console w')"
    by (simp_all add: commit_seen_frame commit_seen_console)
  ultimately show ?thesis using n that by blast
qed

lemma run_abort_frame:
  "run st E w = (w', Inl e) \<Longrightarrow>
   outbox w' = outbox w \<and> flag_files w' = flag_files w \<and> SENT_EMAIL w' = SENT_EMAIL w"
  by (auto simp: run_def Let_def split: sum.splits prod.splits if_splits)

lemma run_guarded:
  assumes run: "run st E w = (w', r)"
    and guard: "SENT_EMAIL w \<or> flag_path st E \<in> flag_files w"
  shows "outbox w' = outbox w" and "\<And>rep. r = Inr rep \<Longrightarrow> \<not> email_sent rep"
proof -
  have "outbox w' = outbox w \<and> (\<forall>rep. r = Inr rep \<longrightarrow> \<not> email_sent rep)"
  proof (cases r)
    case (Inl e)
    with run run_abort_frame show ?thesis by blast
  next
    case (Inr rep)
    with run have "run st E w = (w', Inr rep)" by simp
    then obtain w1 w2 where n: "notify st E (items rep) w1 = (w2, email_sent rep)"
      and fr: "outbox w1 = outbox w" "flag_files w1 = flag_files w" "SENT_EMAIL w1 = SENT_EMAIL w"
        "outbox w' = outbox w2"
      by (rule run_mail_step)
    from guard fr have "SENT_EMAIL w1 \<or> flag_path st E \<in> flag_files w1" by simp
    from notify_guard [OF this, of "items rep"] n have no: "\<not> email_sent rep" by simp
    with n notify_skipped [of st E "items rep" w1 w2] fr Inr show ?thesis by simp
  qed
  then show "outbox w' = outbox w" and "\<And>rep. r = Inr rep \<Longrightarrow> \<not> email_sent rep" by blast+
qed

text \<open>
  Claim C2, as the code has it. Let a run send its mail (\<^verbatim>\<open>send_email\<close> returns) and let
  the flag file be created after it. Then that run handed exactly one mail to the
  transport, the flag file of its snapshot exists and \<^verbatim>\<open>_SENT_EMAIL\<close> is set; a following
  run in a new process with the same flag path (the same snapshot and output directory)
  sends nothing, reports no mail sent, and, when its mail step is enabled and comes to the
  guard, prints the file-guard notice. In general a mail step that finds the flag file
  only prints that notice and returns without a mail sent, a mail step in a process that
  has sent already only prints the process-guard notice, and a second run in the same
  process sends nothing. (The creation of the flag file is tried once and a failure is
  ignored; the guarantee across processes depends on its success.)
\<close>

theorem idempotent_delivery:
  "run st E w = (w1, Inr rep1) \<Longrightarrow> email_sent rep1 \<Longrightarrow> touch_ok E \<Longrightarrow>
   flag_path st' E' = flag_path st E \<Longrightarrow> run st' E' (fresh_process w1) = (w2, r2) \<Longrightarrow>
     outbox w1 = outbox w @ [items rep1]
   \<and> flag_path st E \<in> flag_files w1
   \<and> SENT_EMAIL w1
   \<and> outbox w2 = outbox w1
   \<and> (\<forall>rep2. r2 = Inr rep2 \<longrightarrow>
         \<not> email_sent rep2
         \<and> (cfg_email_enabled st' \<and> flag_dir_ok E' \<longrightarrow>
              FileGuardSkip (snapshot_stamp (clock_today E') (json_path E')) \<in> set (console w2)))
   \<and> (\<forall>its wl. cfg_email_enabled st' \<and> flag_dir_ok E' \<and> \<not> SENT_EMAIL wl
                \<and> flag_path st' E' \<in> flag_files wl
         \<longrightarrow> notify st' E' its wl
               = (say (FileGuardSkip (snapshot_stamp (clock_today E') (json_path E'))) wl, False))
   \<and> (\<forall>its wl. cfg_email_enabled st' \<and> flag_dir_ok E' \<and> SENT_EMAIL wl
         \<longrightarrow> notify st' E' its wl = (say ProcessGuardSkip wl, False))
   \<and> (\<forall>w3 r3. run st' E' w1 = (w3, r3) \<longrightarrow> outbox w3 = outbox w1)"
proof -
  assume run1: "run st E w = (w1, Inr rep1)" and sent: "email_sent rep1" and touch: "touch_ok E"
    and same: "flag_path st' E' = flag_path st E"
    and run2: "run st' E' (fresh_process w1) = (w2, r2)"
  from run1 obtain wa wb where n: "notify st E (items rep1) wa = (wb, email_sent rep1)"
    and fr: "outbox wa = outbox w" "flag_files wa = flag_files w"
      "outbox w1 = outbox wb" "flag_files w1 = flag_files wb" "SENT_EMAIL w1 = SENT_EMAIL wb"
    by (rule run_mail_step)
  from n sent have n': "notify st E (items rep1) wa = (wb, True)" by simp
  from notify_sent(2-4) [OF n'] fr touch
  have one: "outbox w1 = outbox w @ [items rep1]" and flag: "flag_path st E \<in> flag_files w1"
    and proc: "SENT_EMAIL w1"
    by simp_all
  let ?w = "fresh_process w1"
  from flag same have g: "SENT_EMAIL ?w \<or> flag_path st' E' \<in> flag_files ?w"
    by (simp add: fresh_process_def)
  from run_guarded(1) [OF run2 g] have none: "outbox w2 = outbox w1"
    by (simp add: fresh_process_def)
  have second: "\<forall>rep2. r2 = Inr rep2 \<longrightarrow>
         \<not> email_sent rep2
         \<and> (cfg_email_enabled st' \<and> flag_dir_ok E' \<longrightarrow>
              FileGuardSkip (snapshot_stamp (clock_today E') (json_path E')) \<in> set (console w2))"
  proof (intro allI impI conjI)
    fix rep2
    assume r2: "r2 = Inr rep2"
    from run_guarded(2) [OF run2 g r2] show "\<not> email_sent rep2" .
    assume on: "cfg_email_enabled st' \<and> flag_dir_ok E'"
    from run2 r2 have "run st' E' ?w = (w2, Inr rep2)" by simp
    then obtain wc wd where m: "notify st' E' (items rep2) wc = (wd, email_sent rep2)"
      and fc: "flag_files wc = flag_files ?w" "SENT_EMAIL wc = SENT_EMAIL ?w"
        "set (console wd) \<subseteq> set (console w2)"
      by (rule run_mail_step)
    from fc flag same have "\<not> SENT_EMAIL wc" "flag_path st' E' \<in> flag_files wc"
      by (simp_all add: fresh_process_def)
    with on notify_file_guard [of st' wc E' "items rep2"] m
    have "wd = say (FileGuardSkip (snapshot_stamp (clock_today E') (json_path E'))) wc"
      by simp
    then have "FileGuardSkip (snapshot_stamp (clock_today E') (json_path E')) \<in> set (console wd)"
      by (simp add: say_def)
    with fc show "FileGuardSkip (snapshot_stamp (clock_today E') (json_path E')) \<in> set (console w2)"
      by blast
  qed
  have same_process: "\<forall>w3 r3. run st' E' w1 = (w3, r3) \<longrightarrow> outbox w3 = outbox w1"
    using run_guarded(1) proc by blast
  have fg: "\<forall>its wl. cfg_email_enabled st' \<and> flag_dir_ok E' \<and> \<not> SENT_EMAIL wl
                \<and> flag_path st' E' \<in> flag_files wl
         \<longrightarrow> notify st' E' its wl
               = (say (FileGuardSkip (snapshot_stamp (clock_today E') (json_path E'))) wl, False)"
    using notify_file_guard by blast
  have pg: "\<forall>its wl. cfg_email_enabled st' \<and> flag_dir_ok E' \<and> SENT_EMAIL wl
         \<longrightarrow> notify st' E' its wl = (say ProcessGuardSkip wl, False)"
    using notify_process_guard by blast
  from one flag proc none second fg pg same_process show ?thesis
    by - (intro conjI; assumption)
qed

text \<open>
  One run sends \<open>a3\<close> and leaves the flag \<^verbatim>\<open>email_sent_20240110_080000.flag\<close>; the next
  run, in a new process or in the same one, sends nothing.
\<close>

theorem idempotent_delivery_witness:
  "run st_mail env0 w0
     = (w0\<lparr>fetch_calls := [(0, 25)], SENT_EMAIL := True, outbox := [[a3]],
           flag_files := {(''outputs'', ''email_sent_20240110_080000.flag'')},
           console := [EmailSent, SeenSaved],
           state_files := [''.state/seen.json'' \<mapsto> DocIds [''a1'', ''a2'', ''a3'']]\<rparr>,
        Inr \<lparr>items = [a3], site_generated = False, email_sent = True\<rparr>)
   \<and> touch_ok env0
   \<and> flag_path st_mail env0 = (''outputs'', ''email_sent_20240110_080000.flag'')
   \<and> outbox (fst (run st_mail env0 w0)) = outbox w0 @ [[a3]]
   \<and> flag_path st_mail env0 \<in> flag_files (fst (run st_mail env0 w0))
   \<and> snd (run st_mail env0 (fresh_process (fst (run st_mail env0 w0))))
       = Inr \<lparr>items = [], site_generated = False, email_sent = False\<rparr>
   \<and> outbox (fst (run st_mail env0 (fresh_process (fst (run st_mail env0 w0)))))
       = outbox (fst (run st_mail env0 w0))
   \<and> FileGuardSkip ''20240110_080000''
       \<in> set (console (fst (run st_mail env0 (fresh_process (fst (run st_mail env0 w0))))))
   \<and> outbox (fst (run st_mail env0 (fst (run st_mail env0 w0))))
       = outbox (fst (run st_mail env0 w0))"
proof -
  let ?rep1 = "\<lparr>items = [a3], site_generated = False, email_sent = True\<rparr>"
  let ?w1 = "fst (run st_mail env0 w0)"
  let ?run2 = "run st_mail env0 (fresh_process ?w1)"
  have r1: "run st_mail env0 w0
     = (w0\<lparr>fetch_calls := [(0, 25)], SENT_EMAIL := True, outbox := [[a3]],
           flag_files := {(''outputs'', ''email_sent_20240110_080000.flag'')},
           console := [EmailSent, SeenSaved],
           state_files := [''.state/seen.json'' \<mapsto> DocIds [''a1'', ''a2'', ''a3'']]\<rparr>,
        Inr ?rep1)"
    by (simp add: fixture_defs stage_defs paginate_numeral Let_def)
  then have r1': "run st_mail env0 w0 = (?w1, Inr ?rep1)" by simp
  have sent: "email_sent ?rep1" by simp
  have touch: "touch_ok env0" by (simp add: env0_def)
  have fp: "flag_path st_mail env0 = (''outputs'', ''email_sent_20240110_080000.flag'')"
    by (simp add: fixture_defs stage_defs)
  have r2: "snd ?run2 = Inr \<lparr>items = [], site_generated = False, email_sent = False\<rparr>"
    by (simp add: r1) (simp add: fixture_defs stage_defs paginate_numeral Let_def)
  have on: "cfg_email_enabled st_mail \<and> flag_dir_ok env0" by (simp add: fixture_defs)
  have stamp: "snapshot_stamp (clock_today env0) (json_path env0) = ''20240110_080000''"
    by (simp add: fixture_defs stage_defs)
  note inst = idempotent_delivery [OF r1' sent touch refl surjective_pairing]
  from inst have one: "outbox ?w1 = outbox w0 @ [[a3]]" by simp
  from inst have flag: "flag_path st_mail env0 \<in> flag_files ?w1" by blast
  from inst have none: "outbox (fst ?run2) = outbox ?w1" by blast
  from inst [THEN conjunct2, THEN conjunct2, THEN conjunct2, THEN conjunct2, THEN conjunct1,
      rule_format, OF r2] on
  have "FileGuardSkip (snapshot_stamp (clock_today env0) (json_path env0)) \<in> set (console (fst ?run2))"
    by blast
  then have notice: "FileGuardSkip ''20240110_080000'' \<in> set (console (fst ?run2))"
    by (simp only: stamp)
  from inst [THEN conjunct2, THEN conjunct2, THEN conjunct2, THEN conjunct2, THEN conjunct2,
      THEN conjunct2, THEN conjunct2, rule_format, OF surjective_pairing]
  have again: "outbox (fst (run st_mail env0 ?w1)) = outbox ?w1" .
  from r1 touch fp one flag r2 none notice again show ?thesis
    by - (intro conjI; assumption)
qed

text \<open>
  When \<^verbatim>\<open>flag_path.touch()\<close> raises, the exception is passed over and no flag file is
  left: a second process for the same snapshot sends again.
\<close>

theorem idempotent_delivery_touch_counterexample:
  "snd (run st_mail env_no_touch w0)
     = Inr \<lparr>items = [a3], site_generated = False, email_sent = True\<rparr>
   \<and> flag_files (fst (run st_mail env_no_touch w0)) = {}
   \<and> snd (run st_mail env_no_touch (fresh_process (fst (run st_mail env_no_touch w0))))
       = Inr \<lparr>items = [], site_generated = False, email_sent = True\<rparr>
   \<and> outbox (fst (run st_mail env_no_touch (fresh_process (fst (run st_mail env_no_touch w0)))))
       = [[a3], []]"
proof -
  have r1: "run st_mail env_no_touch w0
     = (w0\<lparr>fetch_calls := [(0, 25)], SENT_EMAIL := True, outbox := [[a3]],
           console := [EmailSent, SeenSaved],
           state_files := [''.state/seen.json'' \<mapsto> DocIds [''a1'', ''a2'', ''a3'']]\<rparr>,
        Inr \<lparr>items = [a3], site_generated = False, email_sent = True\<rparr>)"
    by (simp add: fixture_defs stage_defs paginate_numeral Let_def)
  have f: "flag_files (fst (run st_mail env_no_touch w0)) = {}"
    by (simp add: r1) (simp add: w0_def)
  have r2: "run st_mail env_no_touch (fresh_process (fst (run st_mail env_no_touch w0)))
     = (w0\<lparr>fetch_calls := [(0, 25), (0, 25)], SENT_EMAIL := True, outbox := [[a3], []],
           console := [EmailSent, SeenSaved, EmailSent],
           state_files := [''.state/seen.json'' \<mapsto> DocIds [''a1'', ''a2'', ''a3'']]\<rparr>,
        Inr \<lparr>items = [], site_generated = False, email_sent = True\<rparr>)"
    by (simp add: r1) (simp add: fixture_defs stage_defs paginate_numeral Let_def)
  from r1 f r2 show ?thesis by simp
qed

end
